theory Spec2Isabelle
  imports Complex_Main
begin

section \<open>The skip list of \<^verbatim>\<open>skip_list.py\<close>\<close>

subsection \<open>Objects, references and the store\<close>

text \<open>
  A \<^verbatim>\<open>SkipNode\<close> holds a key, a value and the list \<^verbatim>\<open>forward\<close> of its successors, one per
  level. A successor is a reference to another node or Python's \<^verbatim>\<open>None\<close>. Nodes are shared
  and mutated in place, so they live in a store: the list of all nodes created so far, a
  node's address being its index. The value of a node is any Python object, \<^verbatim>\<open>None\<close>
  included: \<open>None\<close> stands for Python's \<^verbatim>\<open>None\<close>, \<open>Some x\<close> for any other object.

  The header is a \<^verbatim>\<open>SkipNode\<close> whose key and value are \<^verbatim>\<open>None\<close> and are never read; only its
  \<^verbatim>\<open>forward\<close> list is kept. No assignment of the source ever stores a reference to the header
  in a \<^verbatim>\<open>forward\<close> list, so a successor is the address of a keyed node, while the variables
  \<^verbatim>\<open>current\<close> and \<^verbatim>\<open>update[i]\<close> range over the header and the keyed nodes. A reference
  of the program always designates an object that exists; that the addresses met here are
  addresses of the store is part of what is proved of every state the operations reach.
\<close>

type_synonym addr = nat

datatype error = IndexError | AttributeError

datatype ref = Header | Node addr

record ('k, 'v) SkipNode =
  key :: 'k
  val :: "'v option"
  forward :: "addr option list"

record ('k, 'v) SkipList =
  max_level :: int
  p :: real
  header :: "addr option list"
  level :: nat
  store :: "('k, 'v) SkipNode list"

text \<open>
  A call either raises (\<open>Inl\<close>) or returns (\<open>Inr\<close>); a call whose loop never ends has no
  result at all (\<open>None\<close>).
\<close>

type_synonym 'a result = "(error + 'a) option"

definition and_then :: "'a result \<Rightarrow> ('a \<Rightarrow> 'b result) \<Rightarrow> 'b result" where
  "and_then r f = (case r of None \<Rightarrow> None | Some (Inl e) \<Rightarrow> Some (Inl e) | Some (Inr x) \<Rightarrow> f x)"

text \<open>\<^verbatim>\<open>SkipNode(key, value, level)\<close>: \<^verbatim>\<open>[None] * (level + 1)\<close>.\<close>

definition new_node :: "'k \<Rightarrow> 'v option \<Rightarrow> nat \<Rightarrow> ('k, 'v) SkipNode" where
  "new_node k v lvl = \<lparr>key = k, val = v, forward = replicate (lvl + 1) None\<rparr>"

text \<open>\<^verbatim>\<open>r.forward\<close>, \<^verbatim>\<open>r.forward[i]\<close> and \<^verbatim>\<open>r.forward[i] = x\<close>; an index past the end raises.\<close>

definition forward_of :: "('k, 'v) SkipList \<Rightarrow> ref \<Rightarrow> addr option list" where
  "forward_of s r = (case r of Header \<Rightarrow> header s | Node a \<Rightarrow> forward (store s ! a))"

definition get_forward :: "('k, 'v) SkipList \<Rightarrow> ref \<Rightarrow> nat \<Rightarrow> error + addr option" where
  "get_forward s r i =
     (if i < length (forward_of s r) then Inr (forward_of s r ! i) else Inl IndexError)"

definition set_forward ::
  "('k, 'v) SkipList \<Rightarrow> ref \<Rightarrow> nat \<Rightarrow> addr option \<Rightarrow> error + ('k, 'v) SkipList" where
  "set_forward s r i x =
     (if i < length (forward_of s r) then
        Inr (case r of
               Header \<Rightarrow> s\<lparr>header := (header s)[i := x]\<rparr>
             | Node a \<Rightarrow> s\<lparr>store := (store s)[a := (store s ! a)\<lparr>forward := (forward (store s ! a))[i := x]\<rparr>]\<rparr>)
      else Inl IndexError)"

subsection \<open>Construction and level generation\<close>

text \<open>
  \<^verbatim>\<open>__init__\<close> stores its arguments as they are and has no \<^verbatim>\<open>raise\<close>; for a negative count
  \<^verbatim>\<open>[None] * n\<close> is the empty list.
\<close>

definition SkipList_init :: "int \<Rightarrow> real \<Rightarrow> error + ('k, 'v) SkipList" where
  "SkipList_init ml pr =
     Inr \<lparr>max_level = ml, p = pr, header = replicate (nat (ml + 1)) None, level = 0, store = []\<rparr>"

text \<open>
  The module \<^verbatim>\<open>random\<close> is a global source of draws, modelled as the sequence of the
  numbers that \<^verbatim>\<open>random.random()\<close> is going to return: a call returns the first and leaves
  the rest. The loop test draws first and compares the level second, so every test takes
  one draw, the failing one too.
\<close>

type_synonym rng = "nat \<Rightarrow> real"

definition random_random :: "rng \<Rightarrow> real \<times> rng" where
  "random_random g = (g 0, \<lambda>n. g (n + 1))"

function random_level_loop :: "int \<Rightarrow> real \<Rightarrow> nat \<Rightarrow> rng \<Rightarrow> nat \<times> rng" where
  "random_level_loop ml pr lvl g =
     (let (x, g') = random_random g in
      if x < pr \<and> int lvl < ml then random_level_loop ml pr (lvl + 1) g' else (lvl, g'))"
  by pat_completeness auto
termination
  by (relation "measure (\<lambda>(ml, pr, lvl, g). nat (ml - int lvl))") (auto simp: random_random_def)

definition random_level :: "('k, 'v) SkipList \<Rightarrow> rng \<Rightarrow> nat \<times> rng" where
  "random_level s g = random_level_loop (max_level s) (p s) 0 g"

subsection \<open>Search\<close>

text \<open>
  The inner loop \<^verbatim>\<open>while current.forward[i] and current.forward[i].key < key\<close>. On a store
  whose links form a cycle of small keys it never ends.
\<close>

partial_function (option) advance ::
  "('k::linorder, 'v) SkipList \<Rightarrow> 'k \<Rightarrow> nat \<Rightarrow> ref \<Rightarrow> (error + ref) option" where
  "advance s k i current =
     (case get_forward s current i of
        Inl e \<Rightarrow> Some (Inl e)
      | Inr None \<Rightarrow> Some (Inr current)
      | Inr (Some a) \<Rightarrow>
          if key (store s ! a) < k then advance s k i (Node a) else Some (Inr current))"

declare advance.simps [code]

text \<open>\<^verbatim>\<open>for i in range(self.level, -1, -1)\<close> of \<^verbatim>\<open>search\<close>; \<open>n\<close> levels are left, the next is \<open>n - 1\<close>.\<close>

fun search_loop :: "('k::linorder, 'v) SkipList \<Rightarrow> 'k \<Rightarrow> nat \<Rightarrow> ref \<Rightarrow> ref result" where
  "search_loop s k 0 current = Some (Inr current)"
| "search_loop s k (Suc i) current =
     and_then (advance s k i current) (\<lambda>c. search_loop s k i c)"

definition search :: "('k::linorder, 'v) SkipList \<Rightarrow> 'k \<Rightarrow> 'v option result" where
  "search s k =
     and_then (search_loop s k (level s + 1) Header) (\<lambda>current.
       case get_forward s current 0 of
         Inl e \<Rightarrow> Some (Inl e)
       | Inr None \<Rightarrow> Some (Inr None)
       | Inr (Some a) \<Rightarrow>
           if key (store s ! a) = k then Some (Inr (val (store s ! a))) else Some (Inr None))"

text \<open>\<^verbatim>\<open>__contains__\<close>: \<^verbatim>\<open>self.search(key) is not None\<close>.\<close>

definition contains :: "('k::linorder, 'v) SkipList \<Rightarrow> 'k \<Rightarrow> bool result" where
  "contains s k = and_then (search s k) (\<lambda>r. Some (Inr (r \<noteq> None)))"

subsection \<open>Insert\<close>

text \<open>\<^verbatim>\<open>insert\<close> is \<open>insert_item\<close> here, and its last loop is \<open>splice_links\<close>.\<close>

text \<open>
  The descent of \<^verbatim>\<open>insert\<close> and \<^verbatim>\<open>delete\<close> records the node it stops at on every level in
  \<^verbatim>\<open>update\<close>, a list of \<^verbatim>\<open>max_level + 1\<close> entries, \<^verbatim>\<open>None\<close> at first.
\<close>

fun find_loop ::
  "('k::linorder, 'v) SkipList \<Rightarrow> 'k \<Rightarrow> nat \<Rightarrow> ref \<Rightarrow> ref option list \<Rightarrow> (ref \<times> ref option list) result" where
  "find_loop s k 0 current update = Some (Inr (current, update))"
| "find_loop s k (Suc i) current update =
     and_then (advance s k i current) (\<lambda>c.
       if i < length update then find_loop s k i c (update[i := Some c])
       else Some (Inl IndexError))"

definition find_update ::
  "('k::linorder, 'v) SkipList \<Rightarrow> 'k \<Rightarrow> (ref \<times> ref option list) result" where
  "find_update s k =
     find_loop s k (level s + 1) Header (replicate (nat (max_level s + 1)) None)"

text \<open>\<^verbatim>\<open>for i in range(self.level + 1, new_level + 1): update[i] = self.header\<close>\<close>

fun fill_header :: "nat list \<Rightarrow> ref option list \<Rightarrow> error + ref option list" where
  "fill_header [] update = Inr update"
| "fill_header (i # is) update =
     (if i < length update then fill_header is (update[i := Some Header]) else Inl IndexError)"

text \<open>
  The splice: \<^verbatim>\<open>new_node.forward[i] = update[i].forward[i]\<close> and then
  \<^verbatim>\<open>update[i].forward[i] = new_node\<close>, for \<open>i\<close> in \<^verbatim>\<open>range(new_level + 1)\<close>.
\<close>

fun splice_links ::
  "nat list \<Rightarrow> ref option list \<Rightarrow> addr \<Rightarrow> ('k, 'v) SkipList \<Rightarrow> error + ('k, 'v) SkipList" where
  "splice_links [] update new s = Inr s"
| "splice_links (i # is) update new s =
     (if i < length update then
        (case update ! i of
           None \<Rightarrow> Inl AttributeError
         | Some u \<Rightarrow>
            (case get_forward s u i of
               Inl e \<Rightarrow> Inl e
             | Inr nxt \<Rightarrow>
                (case set_forward s (Node new) i nxt of
                   Inl e \<Rightarrow> Inl e
                 | Inr s1 \<Rightarrow>
                    (case set_forward s1 u i (Some new) of
                       Inl e \<Rightarrow> Inl e
                     | Inr s2 \<Rightarrow> splice_links is update new s2))))
      else Inl IndexError)"

definition insert_new ::
  "'k \<Rightarrow> 'v option \<Rightarrow> ref option list \<Rightarrow> ('k, 'v) SkipList \<Rightarrow> rng \<Rightarrow> error + ('k, 'v) SkipList \<times> rng" where
  "insert_new k v update s g =
     (let (new_level, g') = random_level s g in
      case (if new_level > level s
            then map_sum id (\<lambda>u. (u, s\<lparr>level := new_level\<rparr>))
                   (fill_header [level s + 1 ..< new_level + 1] update)
            else Inr (update, s)) of
        Inl e \<Rightarrow> Inl e
      | Inr (update', s1) \<Rightarrow>
          (let new = length (store s1);
               s2 = s1\<lparr>store := store s1 @ [new_node k v new_level]\<rparr>
           in map_sum id (\<lambda>s3. (s3, g')) (splice_links [0 ..< new_level + 1] update' new s2)))"

definition insert_item ::
  "'k::linorder \<Rightarrow> 'v option \<Rightarrow> ('k, 'v) SkipList \<Rightarrow> rng \<Rightarrow> (('k, 'v) SkipList \<times> rng) result" where
  "insert_item k v s g =
     and_then (find_update s k) (\<lambda>(current, update).
       case get_forward s current 0 of
         Inl e \<Rightarrow> Some (Inl e)
       | Inr None \<Rightarrow> Some (insert_new k v update s g)
       | Inr (Some a) \<Rightarrow>
           if key (store s ! a) = k
           then Some (Inr (s\<lparr>store := (store s)[a := (store s ! a)\<lparr>val := v\<rparr>]\<rparr>, g))
           else Some (insert_new k v update s g))"

subsection \<open>Delete\<close>

text \<open>
  The unlink loop over \<^verbatim>\<open>range(self.level + 1)\<close>, which breaks at the first level whose
  recorded predecessor does not point at the node found.
\<close>

fun unlink ::
  "nat list \<Rightarrow> ref option list \<Rightarrow> addr \<Rightarrow> ('k, 'v) SkipList \<Rightarrow> error + ('k, 'v) SkipList" where
  "unlink [] update current s = Inr s"
| "unlink (i # is) update current s =
     (if i < length update then
        (case update ! i of
           None \<Rightarrow> Inl AttributeError
         | Some u \<Rightarrow>
            (case get_forward s u i of
               Inl e \<Rightarrow> Inl e
             | Inr nxt \<Rightarrow>
                if nxt \<noteq> Some current then Inr s
                else
                 (case get_forward s (Node current) i of
                    Inl e \<Rightarrow> Inl e
                  | Inr cn \<Rightarrow>
                     (case set_forward s u i cn of
                        Inl e \<Rightarrow> Inl e
                      | Inr s1 \<Rightarrow> unlink is update current s1))))
      else Inl IndexError)"

text \<open>\<^verbatim>\<open>while self.level > 0 and self.header.forward[self.level] is None: self.level -= 1\<close>\<close>

fun shrink_level :: "addr option list \<Rightarrow> nat \<Rightarrow> error + nat" where
  "shrink_level hdr 0 = Inr 0"
| "shrink_level hdr (Suc l) =
     (if Suc l < length hdr then
        (if hdr ! Suc l = None then shrink_level hdr l else Inr (Suc l))
      else Inl IndexError)"

definition delete :: "'k::linorder \<Rightarrow> ('k, 'v) SkipList \<Rightarrow> (bool \<times> ('k, 'v) SkipList) result" where
  "delete k s =
     and_then (find_update s k) (\<lambda>(current, update).
       case get_forward s current 0 of
         Inl e \<Rightarrow> Some (Inl e)
       | Inr None \<Rightarrow> Some (Inr (False, s))
       | Inr (Some a) \<Rightarrow>
           if key (store s ! a) = k then
             (case unlink [0 ..< level s + 1] update a s of
                Inl e \<Rightarrow> Some (Inl e)
              | Inr s1 \<Rightarrow>
                 (case shrink_level (header s1) (level s1) of
                    Inl e \<Rightarrow> Some (Inl e)
                  | Inr l \<Rightarrow> Some (Inr (True, s1\<lparr>level := l\<rparr>))))
           else Some (Inr (False, s)))"

subsection \<open>Enumeration\<close>

text \<open>
  The walk \<^verbatim>\<open>while node: ...; node = node.forward[i]\<close> that \<^verbatim>\<open>get_all_items\<close> and \<^verbatim>\<open>__len__\<close>
  run on level 0 and \<^verbatim>\<open>display\<close> runs on every level from the top down, collecting the
  key and value of each node passed.
\<close>

partial_function (option) walk ::
  "('k, 'v) SkipList \<Rightarrow> nat \<Rightarrow> addr option \<Rightarrow> ('k \<times> 'v option) list \<Rightarrow> (error + ('k \<times> 'v option) list) option" where
  "walk s i current items =
     (case current of
        None \<Rightarrow> Some (Inr items)
      | Some a \<Rightarrow>
         (case get_forward s (Node a) i of
            Inl e \<Rightarrow> Some (Inl e)
          | Inr nxt \<Rightarrow> walk s i nxt (items @ [(key (store s ! a), val (store s ! a))])))"

declare walk.simps [code]

definition display_level :: "('k, 'v) SkipList \<Rightarrow> nat \<Rightarrow> ('k \<times> 'v option) list result" where
  "display_level s i =
     (case get_forward s Header i of Inl e \<Rightarrow> Some (Inl e) | Inr c \<Rightarrow> walk s i c [])"

text \<open>The keys alone, as a renderer reads them off a level.\<close>

definition level_keys :: "('k, 'v) SkipList \<Rightarrow> nat \<Rightarrow> 'k list result" where
  "level_keys s i = and_then (display_level s i) (\<lambda>items. Some (Inr (map fst items)))"

definition get_all_items :: "('k, 'v) SkipList \<Rightarrow> ('k \<times> 'v option) list result" where
  "get_all_items s = display_level s 0"

definition len :: "('k, 'v) SkipList \<Rightarrow> nat result" where
  "len s = and_then (display_level s 0) (\<lambda>items. Some (Inr (length items)))"

subsection \<open>Sequences of operations\<close>

datatype ('k, 'v) operation = Insert 'k "'v option" | Delete 'k

fun exec ::
  "('k::linorder, 'v) operation list \<Rightarrow> ('k, 'v) SkipList \<Rightarrow> rng \<Rightarrow> (('k, 'v) SkipList \<times> rng) result" where
  "exec [] s g = Some (Inr (s, g))"
| "exec (Insert k v # ops) s g = and_then (insert_item k v s g) (\<lambda>(s', g'). exec ops s' g')"
| "exec (Delete k # ops) s g = and_then (delete k s) (\<lambda>(b, s'). exec ops s' g)"

definition run ::
  "int \<Rightarrow> real \<Rightarrow> ('k::linorder, 'v) operation list \<Rightarrow> rng \<Rightarrow> ('k, 'v) SkipList result" where
  "run ml pr ops g =
     (case SkipList_init ml pr of
        Inl e \<Rightarrow> Some (Inl e)
      | Inr s \<Rightarrow> and_then (exec ops s g) (\<lambda>(s', g'). Some (Inr s')))"

text \<open>Client programs: build a list, run the operations, then look a key up.\<close>

definition run_search ::
  "int \<Rightarrow> real \<Rightarrow> ('k::linorder, 'v) operation list \<Rightarrow> rng \<Rightarrow> 'k \<Rightarrow> 'v option result" where
  "run_search ml pr ops g k = and_then (run ml pr ops g) (\<lambda>s. search s k)"

definition run_contains ::
  "int \<Rightarrow> real \<Rightarrow> ('k::linorder, 'v) operation list \<Rightarrow> rng \<Rightarrow> 'k \<Rightarrow> bool result" where
  "run_contains ml pr ops g k = and_then (run ml pr ops g) (\<lambda>s. contains s k)"

text \<open>A source whose every draw is the same number.\<close>

definition fixed_rng :: "real \<Rightarrow> rng" where
  "fixed_rng x = (\<lambda>n. x)"

text \<open>
  What a sequence of operations leaves under each key, read off the sequence alone: the
  value of the most recent insert of the key, if no delete of the key came after it.
\<close>

fun stored :: "('k, 'v) operation list \<Rightarrow> ('k \<rightharpoonup> 'v option) \<Rightarrow> ('k \<rightharpoonup> 'v option)" where
  "stored [] m = m"
| "stored (Insert k v # ops) m = stored ops (m(k \<mapsto> v))"
| "stored (Delete k # ops) m = stored ops (m(k := None))"

section \<open>Well-formed stores\<close>

text \<open>
  The proofs read a store through four projections: the link of a node or of the header on
  a level, and the number of links, the key and the value of the node at an address.
\<close>

definition nxr :: "('k, 'v) SkipList \<Rightarrow> nat \<Rightarrow> ref \<Rightarrow> addr option" where
  "nxr s i r = forward_of s r ! i"

definition height :: "('k, 'v) SkipList \<Rightarrow> addr \<Rightarrow> nat" where
  "height s a = length (forward (store s ! a))"

definition keyof :: "('k, 'v) SkipList \<Rightarrow> addr \<Rightarrow> 'k" where
  "keyof s a = key (store s ! a)"

definition valof :: "('k, 'v) SkipList \<Rightarrow> addr \<Rightarrow> 'v option" where
  "valof s a = val (store s ! a)"

text \<open>
  \<open>chain s i r as\<close>: following the links of level \<open>i\<close> from \<open>r\<close> passes exactly the
  addresses \<open>as\<close> and then ends.
\<close>

fun chain :: "('k, 'v) SkipList \<Rightarrow> nat \<Rightarrow> ref \<Rightarrow> addr list \<Rightarrow> bool" where
  "chain s i r [] = (nxr s i r = None)"
| "chain s i r (a # as) = (nxr s i r = Some a \<and> chain s i (Node a) as)"

text \<open>The nodes of a list that are tall enough to be linked on level \<open>i\<close>.\<close>

definition lev :: "('k, 'v) SkipList \<Rightarrow> nat \<Rightarrow> addr list \<Rightarrow> addr list" where
  "lev s i es = filter (\<lambda>a. i < height s a) es"

definition last_ref :: "ref \<Rightarrow> addr list \<Rightarrow> ref" where
  "last_ref r as = last (r # map Node as)"

text \<open>
  A store is well formed for the list \<open>es\<close> of its linked nodes when the keys of \<open>es\<close>
  increase strictly, every level \<open>i\<close> of the header chains exactly the nodes of \<open>es\<close> with
  more than \<open>i\<close> links, no node is taller than the current level allows, and the current
  level is the level of a tallest node (0 when there is none).
\<close>

definition wf :: "('k::linorder, 'v) SkipList \<Rightarrow> addr list \<Rightarrow> bool" where
  "wf s es \<longleftrightarrow>
     0 \<le> max_level s \<and> length (header s) = nat (max_level s + 1) \<and> int (level s) \<le> max_level s \<and>
     sorted_wrt (<) (map (keyof s) es) \<and>
     (\<forall>a\<in>set es. a < length (store s) \<and> 0 < height s a \<and> height s a \<le> level s + 1) \<and>
     (\<forall>i<length (header s). chain s i Header (lev s i es)) \<and>
     (level s = 0 \<or> (\<exists>a\<in>set es. height s a = level s + 1))"

text \<open>Two stores with the same nodes, whose links may differ.\<close>

definition same_nodes :: "('k, 'v) SkipList \<Rightarrow> ('k, 'v) SkipList \<Rightarrow> bool" where
  "same_nodes s s' \<longleftrightarrow>
     max_level s' = max_level s \<and> p s' = p s \<and> level s' = level s \<and>
     length (store s') = length (store s) \<and>
     (\<forall>q. length (forward_of s' q) = length (forward_of s q)) \<and>
     (\<forall>a. keyof s' a = keyof s a \<and> valof s' a = valof s a)"

text \<open>
  The nodes with a key below \<open>k\<close>, the others, and the node the descent for \<open>k\<close> stops at on
  level \<open>i\<close>.
\<close>

definition below :: "('k::linorder, 'v) SkipList \<Rightarrow> 'k \<Rightarrow> addr list \<Rightarrow> addr list" where
  "below s k es = takeWhile (\<lambda>a. keyof s a < k) es"

definition rest :: "('k::linorder, 'v) SkipList \<Rightarrow> 'k \<Rightarrow> addr list \<Rightarrow> addr list" where
  "rest s k es = dropWhile (\<lambda>a. keyof s a < k) es"

definition pred :: "('k::linorder, 'v) SkipList \<Rightarrow> 'k \<Rightarrow> addr list \<Rightarrow> nat \<Rightarrow> ref" where
  "pred s k es i = last_ref Header (lev s i (below s k es))"

definition items :: "('k, 'v) SkipList \<Rightarrow> addr list \<Rightarrow> ('k \<times> 'v option) list" where
  "items s es = map (\<lambda>a. (keyof s a, valof s a)) es"

section \<open>Chains\<close>

lemma last_ref_simps [simp]:
  "last_ref r [] = r"
  "last_ref r (a # as) = last_ref (Node a) as"
  "last_ref r (as @ [a]) = Node a"
  by (simp_all add: last_ref_def)

lemma last_ref_append: "last_ref r (as @ bs) = last_ref (last_ref r as) bs"
  by (induction as arbitrary: r) simp_all

lemma last_ref_cases: "last_ref r as = r \<and> as = [] \<or> (as \<noteq> [] \<and> last_ref r as = Node (last as))"
  by (cases as rule: rev_cases) simp_all

lemma chain_unique: "chain s i r as \<Longrightarrow> chain s i r bs \<Longrightarrow> as = bs"
proof (induction as arbitrary: r bs)
  case Nil
  then show ?case by (cases bs) simp_all
next
  case (Cons a as)
  then show ?case by (cases bs) auto
qed

lemma chain_suffix: "chain s i r (as @ bs) \<Longrightarrow> chain s i (last_ref r as) bs"
  by (induction as arbitrary: r) auto

lemma chain_cong:
  "(\<And>q. q = r \<or> q \<in> Node ` set as \<Longrightarrow> nxr s' i q = nxr s i q) \<Longrightarrow>
   chain s' i r as = chain s i r as"
  by (induction as arbitrary: r) auto

text \<open>Splicing a fresh address into a chain, and taking one out.\<close>

lemma chain_splice_here:
  assumes "chain s i r ys" "new \<notin> set ys" "r \<notin> Node ` set ys" "r \<noteq> Node new"
    and new: "nxr s' i (Node new) = nxr s i r"
    and upd: "nxr s' i r = Some new"
    and frame: "\<And>q. q \<in> Node ` set ys \<Longrightarrow> nxr s' i q = nxr s i q"
  shows "chain s' i r (new # ys)"
proof -
  have "chain s' i (Node new) ys"
  proof (cases ys)
    case Nil
    with assms show ?thesis by simp
  next
    case (Cons y zs)
    have "chain s' i (Node y) zs = chain s i (Node y) zs"
      using Cons by (intro chain_cong frame) auto
    with Cons assms(1) new show ?thesis by auto
  qed
  with upd show ?thesis by simp
qed

lemma chain_splice:
  assumes "chain s i r (xs @ ys)" "new \<notin> set (xs @ ys)" "distinct (xs @ ys)"
    "r \<notin> Node ` set (xs @ ys)" "r \<noteq> Node new"
    and new: "nxr s' i (Node new) = nxr s i (last_ref r xs)"
    and upd: "nxr s' i (last_ref r xs) = Some new"
    and frame: "\<And>q. q = r \<or> q \<in> Node ` set (xs @ ys) \<Longrightarrow> q \<noteq> last_ref r xs \<Longrightarrow>
                  nxr s' i q = nxr s i q"
  shows "chain s' i r (xs @ new # ys)"
  using assms
proof (induction xs arbitrary: r)
  case Nil
  show ?case
    unfolding append_Nil
  proof (rule chain_splice_here)
    show "chain s i r ys" using Nil.prems(1) by simp
    show "nxr s' i q = nxr s i q" if "q \<in> Node ` set ys" for q
      using that Nil.prems(4) by (intro Nil.prems(8)) auto
  qed (use Nil.prems in auto)
next
  case (Cons x xs)
  let ?u = "last_ref (Node x) xs"
  from Cons.prems(2-5) have nr: "?u \<noteq> r"
    using last_ref_cases [of "Node x" xs] by auto
  from Cons.prems(1) have a: "chain s i (Node x) (xs @ ys)" "nxr s i r = Some x" by auto
  have b: "chain s' i (Node x) (xs @ new # ys)"
  proof (rule Cons.IH)
    show "chain s i (Node x) (xs @ ys)" by (rule a)
    show "nxr s' i q = nxr s i q" if "q = Node x \<or> q \<in> Node ` set (xs @ ys)" "q \<noteq> ?u" for q
      using that by (intro Cons.prems(8)) auto
  qed (use Cons.prems(2-7) in auto)
  have "nxr s' i r = Some x"
    using a nr Cons.prems(8) [of r] by simp
  with b show ?case by simp
qed

lemma chain_unlink_here:
  assumes "chain s i r (c # ys)" "c \<notin> set ys" "r \<notin> Node ` set ys"
    and upd: "nxr s' i r = nxr s i (Node c)"
    and frame: "\<And>q. q \<noteq> r \<Longrightarrow> nxr s' i q = nxr s i q"
  shows "chain s' i r ys"
proof (cases ys)
  case Nil
  with assms show ?thesis by simp
next
  case (Cons y zs)
  have "chain s' i (Node y) zs = chain s i (Node y) zs"
    using assms(2,3) Cons by (intro chain_cong frame) auto
  with Cons assms(1) upd show ?thesis by auto
qed

lemma chain_unlink:
  assumes "chain s i r (xs @ c # ys)" "distinct (xs @ c # ys)" "r \<notin> Node ` set (xs @ c # ys)"
    and upd: "nxr s' i (last_ref r xs) = nxr s i (Node c)"
    and frame: "\<And>q. q \<noteq> last_ref r xs \<Longrightarrow> nxr s' i q = nxr s i q"
  shows "chain s' i r (xs @ ys)"
  using assms
proof (induction xs arbitrary: r)
  case Nil
  show ?case
    unfolding append_Nil
  proof (rule chain_unlink_here)
    show "chain s i r (c # ys)" using Nil.prems(1) by simp
  qed (use Nil.prems in auto)
next
  case (Cons x xs)
  let ?u = "last_ref (Node x) xs"
  from Cons.prems(2,3) have nr: "?u \<noteq> r"
    using last_ref_cases [of "Node x" xs] by auto
  from Cons.prems(1) have a: "chain s i (Node x) (xs @ c # ys)" "nxr s i r = Some x" by auto
  have b: "chain s' i (Node x) (xs @ ys)"
  proof (rule Cons.IH)
    show "chain s i (Node x) (xs @ c # ys)" by (rule a)
  qed (use Cons.prems in auto)
  have "nxr s' i r = Some x"
    using a nr Cons.prems(5) [of r] by simp
  with b show ?case by simp
qed

lemma forward_of_simps [simp]:
  "forward_of s Header = header s"
  "forward_of s (Node a) = forward (store s ! a)"
  by (simp_all add: forward_of_def)

lemma same_nodes_refl: "same_nodes s s"
  by (simp add: same_nodes_def)

lemma same_nodes_trans: "same_nodes s s1 \<Longrightarrow> same_nodes s1 s2 \<Longrightarrow> same_nodes s s2"
  by (simp add: same_nodes_def)

lemma same_nodes_height: "same_nodes s s' \<Longrightarrow> height s' a = height s a"
  unfolding same_nodes_def height_def using forward_of_simps(2) by metis

lemma same_nodes_header: "same_nodes s s' \<Longrightarrow> length (header s') = length (header s)"
  unfolding same_nodes_def using forward_of_simps(1) by metis

lemma same_nodes_lev: "same_nodes s s' \<Longrightarrow> lev s' i es = lev s i es"
  by (simp add: lev_def same_nodes_height)

lemma get_forward_ok: "i < length (forward_of s r) \<Longrightarrow> get_forward s r i = Inr (nxr s i r)"
  by (simp add: get_forward_def nxr_def)

lemma set_forward_ok:
  assumes "i < length (forward_of s r)" "\<And>a. r = Node a \<Longrightarrow> a < length (store s)"
  shows "\<exists>s'. set_forward s r i x = Inr s' \<and> same_nodes s s' \<and>
           (\<forall>j q. nxr s' j q = (if j = i \<and> q = r then x else nxr s j q))"
proof (cases r)
  case Header
  let ?s = "s\<lparr>header := (header s)[i := x]\<rparr>"
  have "set_forward s r i x = Inr ?s"
    using assms Header by (simp add: set_forward_def)
  moreover have "same_nodes s ?s"
    by (auto simp: same_nodes_def forward_of_def keyof_def valof_def split: ref.splits)
  moreover have "nxr ?s j q = (if j = i \<and> q = r then x else nxr s j q)" for j q
    using assms Header by (cases q) (auto simp: nxr_def)
  ultimately show ?thesis by blast
next
  case (Node a)
  let ?n = "(store s ! a)\<lparr>forward := (forward (store s ! a))[i := x]\<rparr>"
  let ?s = "s\<lparr>store := (store s)[a := ?n]\<rparr>"
  have a: "a < length (store s)" using assms Node by simp
  have "set_forward s r i x = Inr ?s"
    using assms Node by (simp add: set_forward_def)
  moreover have "length (forward_of ?s q) = length (forward_of s q)" for q
    using a by (cases q) (auto simp: nth_list_update)
  then have "same_nodes s ?s"
    using a by (auto simp: same_nodes_def keyof_def valof_def nth_list_update)
  moreover have "nxr ?s j q = (if j = i \<and> q = r then x else nxr s j q)" for j q
    using assms a Node by (cases q) (auto simp: nxr_def nth_list_update)
  ultimately show ?thesis by blast
qed

lemma advance_ok:
  assumes "chain s i r as" "i < length (forward_of s r)" "\<forall>a\<in>set as. i < height s a"
  shows "advance s k i r = Some (Inr (last_ref r (takeWhile (\<lambda>a. keyof s a < k) as)))"
  using assms
proof (induction as arbitrary: r)
  case Nil
  then show ?case
    by (subst advance.simps) (simp add: get_forward_ok)
next
  case (Cons a as)
  from Cons.prems have nx: "get_forward s r i = Inr (Some a)"
    by (simp add: get_forward_ok)
  show ?case
  proof (cases "keyof s a < k")
    case True
    have "advance s k i (Node a) = Some (Inr (last_ref (Node a) (takeWhile (\<lambda>a. keyof s a < k) as)))"
      using Cons.prems by (intro Cons.IH) (auto simp: height_def)
    with True nx show ?thesis
      by (subst advance.simps) (simp add: keyof_def)
  next
    case False
    with nx show ?thesis
      by (subst advance.simps) (simp add: keyof_def)
  qed
qed

lemma walk_ok:
  assumes "chain s i r as" "\<forall>a\<in>set as. i < height s a"
  shows "walk s i (nxr s i r) acc = Some (Inr (acc @ map (\<lambda>a. (keyof s a, valof s a)) as))"
  using assms
proof (induction as arbitrary: r acc)
  case Nil
  then show ?case
    by (subst walk.simps) simp
next
  case (Cons a as)
  have "walk s i (nxr s i (Node a)) (acc @ [(keyof s a, valof s a)]) =
      Some (Inr ((acc @ [(keyof s a, valof s a)]) @ map (\<lambda>a. (keyof s a, valof s a)) as))"
    using Cons.prems by (intro Cons.IH) auto
  moreover have "get_forward s (Node a) i = Inr (nxr s i (Node a))"
    using Cons.prems by (simp add: get_forward_ok height_def)
  ultimately show ?case
    using Cons.prems by (subst walk.simps) (simp add: keyof_def valof_def)
qed

declare random_level_loop.simps [simp del]

lemma random_level_loop_bounds:
  "int lvl \<le> ml \<Longrightarrow> lvl \<le> fst (random_level_loop ml pr lvl g) \<and> int (fst (random_level_loop ml pr lvl g)) \<le> ml"
proof (induction ml pr lvl g rule: random_level_loop.induct)
  case (1 ml pr lvl g)
  obtain x g' where d: "random_random g = (x, g')" by (cases "random_random g")
  show ?case
  proof (cases "x < pr \<and> int lvl < ml")
    case True
    then have "lvl + 1 \<le> fst (random_level_loop ml pr (lvl + 1) g') \<and>
        int (fst (random_level_loop ml pr (lvl + 1) g')) \<le> ml"
      using "1.IH" [OF d [symmetric] refl] by simp
    with True d show ?thesis
      by (subst (1 2) random_level_loop.simps) simp
  next
    case False
    have "random_level_loop ml pr lvl g = (lvl, g')"
      using False d by (subst random_level_loop.simps) auto
    with "1.prems" show ?thesis by simp
  qed
qed

lemma random_level_le: "0 \<le> max_level s \<Longrightarrow> int (fst (random_level s g)) \<le> max_level s"
  using random_level_loop_bounds [of 0 "max_level s" "p s" g] by (simp add: random_level_def)

lemma fill_header_ok:
  assumes "\<forall>i\<in>set is. i < length upd"
  shows "\<exists>upd'. fill_header is upd = Inr upd' \<and> length upd' = length upd \<and>
           (\<forall>j. upd' ! j = (if j \<in> set is then Some Header else upd ! j))"
  using assms
proof (induction "is" arbitrary: upd)
  case Nil
  then show ?case by simp
next
  case (Cons i "is")
  have "\<exists>upd'. fill_header is (upd[i := Some Header]) = Inr upd' \<and>
      length upd' = length (upd[i := Some Header]) \<and>
      (\<forall>j. upd' ! j = (if j \<in> set is then Some Header else upd[i := Some Header] ! j))"
    using Cons.prems by (intro Cons.IH) simp
  then obtain upd' where u: "fill_header is (upd[i := Some Header]) = Inr upd'"
    "length upd' = length upd"
    "\<And>j. upd' ! j = (if j \<in> set is then Some Header else upd[i := Some Header] ! j)"
    by auto
  have "upd' ! j = (if j \<in> set (i # is) then Some Header else upd ! j)" for j
    using u(3) [of j] Cons.prems by (auto simp: nth_list_update)
  with u(1,2) Cons.prems show ?case by simp
qed

lemma shrink_level_ok:
  assumes "l < length hdr"
  shows "\<exists>l'. shrink_level hdr l = Inr l' \<and> l' \<le> l \<and> (l' = 0 \<or> hdr ! l' \<noteq> None) \<and>
           (\<forall>j. l' < j \<and> j \<le> l \<longrightarrow> hdr ! j = None)"
  using assms
proof (induction l)
  case 0
  then show ?case by simp
next
  case (Suc l)
  show ?case
  proof (cases "hdr ! Suc l = None")
    case False
    with Suc.prems have "shrink_level hdr (Suc l) = Inr (Suc l)" by auto
    with False show ?thesis by auto
  next
    case True
    from Suc obtain l' where l': "shrink_level hdr l = Inr l'" "l' \<le> l" "l' = 0 \<or> hdr ! l' \<noteq> None"
      "\<And>j. l' < j \<and> j \<le> l \<Longrightarrow> hdr ! j = None"
      by auto
    have "hdr ! j = None" if "l' < j \<and> j \<le> Suc l" for j
      using that l'(4) [of j] True by (cases "j = Suc l") auto
    with l' True Suc.prems show ?thesis by auto
  qed
qed

text \<open>The splice and the unlink, level by level, in terms of the links they leave.\<close>

lemma splice_links_ok:
  assumes "distinct is" "new < length (store s)"
    and "\<forall>i\<in>set is. i < length upd \<and> upd ! i = Some (U i) \<and> i < length (forward_of s (U i)) \<and>
           i < height s new \<and> U i \<noteq> Node new \<and> (\<forall>a. U i = Node a \<longrightarrow> a < length (store s))"
  shows "\<exists>s'. splice_links is upd new s = Inr s' \<and> same_nodes s s' \<and>
           (\<forall>j q. nxr s' j q =
              (if j \<in> set is then (if q = U j then Some new else if q = Node new then nxr s j (U j) else nxr s j q)
               else nxr s j q))"
  using assms
proof (induction "is" arbitrary: s)
  case Nil
  then show ?case by (simp add: same_nodes_refl)
next
  case (Cons i "is")
  from Cons.prems have i: "i < length upd" "upd ! i = Some (U i)" "i < length (forward_of s (U i))"
    "i < height s new" "U i \<noteq> Node new" "\<And>a. U i = Node a \<Longrightarrow> a < length (store s)"
    by auto
  obtain s1 where s1: "set_forward s (Node new) i (nxr s i (U i)) = Inr s1" "same_nodes s s1"
    "\<And>j q. nxr s1 j q = (if j = i \<and> q = Node new then nxr s i (U i) else nxr s j q)"
    using set_forward_ok [of i s "Node new" "nxr s i (U i)"] i(4) Cons.prems(2)
    by (auto simp: height_def)
  have len1: "length (forward_of s1 q) = length (forward_of s q)" "length (store s1) = length (store s)" for q
    using s1(2) by (simp_all add: same_nodes_def)
  obtain s2 where s2: "set_forward s1 (U i) i (Some new) = Inr s2" "same_nodes s1 s2"
    "\<And>j q. nxr s2 j q = (if j = i \<and> q = U i then Some new else nxr s1 j q)"
    using set_forward_ok [of i s1 "U i" "Some new"] i(3,6) len1 by auto
  have sn: "same_nodes s s2"
    using s1(2) s2(2) by (rule same_nodes_trans)
  have len2: "length (forward_of s2 q) = length (forward_of s q)" "length (store s2) = length (store s)" for q
    using sn by (simp_all add: same_nodes_def)
  have "\<exists>s'. splice_links is upd new s2 = Inr s' \<and> same_nodes s2 s' \<and>
      (\<forall>j q. nxr s' j q =
         (if j \<in> set is then (if q = U j then Some new else if q = Node new then nxr s2 j (U j) else nxr s2 j q)
          else nxr s2 j q))"
  proof (rule Cons.IH)
    show "distinct is" using Cons.prems(1) by simp
    show "new < length (store s2)" using Cons.prems(2) len2 by simp
    show "\<forall>i\<in>set is. i < length upd \<and> upd ! i = Some (U i) \<and> i < length (forward_of s2 (U i)) \<and>
        i < height s2 new \<and> U i \<noteq> Node new \<and> (\<forall>a. U i = Node a \<longrightarrow> a < length (store s2))"
      using Cons.prems(3) len2 same_nodes_height [OF sn] by simp
  qed
  then obtain s' where s': "splice_links is upd new s2 = Inr s'" "same_nodes s2 s'"
    "\<And>j q. nxr s' j q =
         (if j \<in> set is then (if q = U j then Some new else if q = Node new then nxr s2 j (U j) else nxr s2 j q)
          else nxr s2 j q)"
    by blast
  have run: "splice_links (i # is) upd new s = Inr s'"
    using i s1(1) s2(1) s'(1) by (simp add: get_forward_ok)
  have ni: "i \<notin> set is" using Cons.prems(1) by simp
  have "nxr s' j q =
      (if j \<in> set (i # is) then (if q = U j then Some new else if q = Node new then nxr s j (U j) else nxr s j q)
       else nxr s j q)" for j q
  proof (cases "j = i")
    case True
    then show ?thesis using s'(3) [of j q] ni s2(3) [of j q] s1(3) [of j q] by simp
  next
    case False
    then show ?thesis using s'(3) [of j q] s2(3) [of j] s1(3) [of j] by simp
  qed
  with run same_nodes_trans [OF sn s'(2)] show ?case by blast
qed

lemma unlink_ok:
  assumes "distinct is" "c < length (store s)"
    and "\<forall>i\<in>set is. i < length upd \<and> upd ! i = Some (U i) \<and> i < length (forward_of s (U i)) \<and>
           (nxr s i (U i) = Some c \<longrightarrow> i < height s c) \<and> (\<forall>a. U i = Node a \<longrightarrow> a < length (store s))"
  shows "\<exists>s'. unlink is upd c s = Inr s' \<and> same_nodes s s' \<and>
           (\<forall>j q. nxr s' j q =
              (if j \<in> set (takeWhile (\<lambda>i. nxr s i (U i) = Some c) is) \<and> q = U j then nxr s j (Node c)
               else nxr s j q))"
  using assms
proof (induction "is" arbitrary: s)
  case Nil
  then show ?case by (simp add: same_nodes_refl)
next
  case (Cons i "is")
  from Cons.prems have i: "i < length upd" "upd ! i = Some (U i)" "i < length (forward_of s (U i))"
    "nxr s i (U i) = Some c \<Longrightarrow> i < height s c" "\<And>a. U i = Node a \<Longrightarrow> a < length (store s)"
    by auto
  show ?case
  proof (cases "nxr s i (U i) = Some c")
    case False
    with i have "unlink (i # is) upd c s = Inr s"
      by (simp add: get_forward_ok)
    with False show ?thesis by (simp add: same_nodes_refl)
  next
    case True
    obtain s1 where s1: "set_forward s (U i) i (nxr s i (Node c)) = Inr s1" "same_nodes s s1"
      "\<And>j q. nxr s1 j q = (if j = i \<and> q = U i then nxr s i (Node c) else nxr s j q)"
      using set_forward_ok [of i s "U i" "nxr s i (Node c)"] i(3,5) by auto
    have len1: "length (forward_of s1 q) = length (forward_of s q)" "length (store s1) = length (store s)" for q
      using s1(2) by (simp_all add: same_nodes_def)
    have ni: "i \<notin> set is" using Cons.prems(1) by simp
    have same: "nxr s1 j q = nxr s j q" if "j \<in> set is" for j q
      using s1(3) [of j q] that ni by auto
    have "\<exists>s'. unlink is upd c s1 = Inr s' \<and> same_nodes s1 s' \<and>
        (\<forall>j q. nxr s' j q =
           (if j \<in> set (takeWhile (\<lambda>i. nxr s1 i (U i) = Some c) is) \<and> q = U j then nxr s1 j (Node c)
            else nxr s1 j q))"
    proof (rule Cons.IH)
      show "distinct is" using Cons.prems(1) by simp
      show "c < length (store s1)" using Cons.prems(2) len1 by simp
      show "\<forall>i\<in>set is. i < length upd \<and> upd ! i = Some (U i) \<and> i < length (forward_of s1 (U i)) \<and>
          (nxr s1 i (U i) = Some c \<longrightarrow> i < height s1 c) \<and> (\<forall>a. U i = Node a \<longrightarrow> a < length (store s1))"
        using Cons.prems(3) len1 same_nodes_height [OF s1(2)] same by simp
    qed
    then obtain s' where s': "unlink is upd c s1 = Inr s'" "same_nodes s1 s'"
      "\<And>j q. nxr s' j q =
           (if j \<in> set (takeWhile (\<lambda>i. nxr s1 i (U i) = Some c) is) \<and> q = U j then nxr s1 j (Node c)
            else nxr s1 j q)"
      by blast
    have tw: "takeWhile (\<lambda>i. nxr s1 i (U i) = Some c) is = takeWhile (\<lambda>i. nxr s i (U i) = Some c) is"
      by (rule takeWhile_cong) (simp_all add: same)
    have run: "unlink (i # is) upd c s = Inr s'"
      using i True s1(1) s'(1) by (simp add: get_forward_ok height_def)
    have "nxr s' j q =
        (if j \<in> set (takeWhile (\<lambda>i. nxr s i (U i) = Some c) (i # is)) \<and> q = U j then nxr s j (Node c)
         else nxr s j q)" for j q
    proof (cases "j = i")
      case True
      have "i \<notin> set (takeWhile (\<lambda>i. nxr s i (U i) = Some c) is)"
        using ni set_takeWhileD by metis
      then show ?thesis
        using s'(3) [of j q] s1(3) [of j q] True \<open>nxr s i (U i) = Some c\<close> tw by simp
    next
      case False
      have "j \<in> set (takeWhile (\<lambda>i. nxr s i (U i) = Some c) is) \<Longrightarrow> j \<in> set is"
        using set_takeWhileD by metis
      then show ?thesis
        using s'(3) [of j q] s1(3) [of j] False \<open>nxr s i (U i) = Some c\<close> tw by auto
    qed
    with run same_nodes_trans [OF s1(2) s'(2)] show ?thesis by blast
  qed
qed

lemma below_rest: "below s k es @ rest s k es = es"
  by (simp add: below_def rest_def)

lemma lev_append [simp]: "lev s i (xs @ ys) = lev s i xs @ lev s i ys"
  by (simp add: lev_def)

lemma lev_Cons: "lev s i (a # xs) = (if i < height s a then a # lev s i xs else lev s i xs)"
  by (simp add: lev_def)

lemma lev_Nil [simp]: "lev s i [] = []"
  by (simp add: lev_def)

lemma set_lev: "set (lev s i es) = {a \<in> set es. i < height s a}"
  by (auto simp: lev_def)

lemma wf_distinct:
  assumes "wf s es"
  shows "distinct es"
proof -
  from assms have "sorted_wrt (<) (map (keyof s) es)" by (simp add: wf_def)
  then have "distinct (map (keyof s) es)"
    by (simp add: strict_sorted_iff)
  then show ?thesis by (simp add: distinct_map)
qed

lemma wf_level_lt: "wf s es \<Longrightarrow> level s < length (header s)"
  unfolding wf_def by linarith

lemma below_keys: "a \<in> set (below s k es) \<Longrightarrow> keyof s a < k"
  unfolding below_def by (rule set_takeWhileD [THEN conjunct2])

lemma rest_keys:
  assumes "sorted_wrt (<) (map (keyof s) es)" "a \<in> set (rest s k es)"
  shows "\<not> keyof s a < k"
proof (cases "rest s k es")
  case Nil
  with assms show ?thesis by simp
next
  case (Cons c cs)
  then have c: "\<not> keyof s c < k"
    unfolding rest_def using hd_dropWhile [of "\<lambda>a. keyof s a < k" es] by auto
  have "sorted_wrt (<) (map (keyof s) (below s k es @ c # cs))"
    using assms(1) below_rest [of s k es] Cons by simp
  then have "\<forall>b\<in>set cs. keyof s c < keyof s b"
    by (simp add: sorted_wrt_append)
  with c assms(2) Cons show ?thesis by auto
qed

lemma takeWhile_prefix:
  "\<forall>x\<in>set xs. P x \<Longrightarrow> \<forall>y\<in>set ys. \<not> P y \<Longrightarrow> takeWhile P (xs @ ys) = xs"
  by (cases ys) (simp_all add: takeWhile_append2)

lemma filter_split_last:
  "\<exists>xs ys. B = xs @ ys \<and> filter Q ys = [] \<and> (xs = [] \<or> Q (last xs))"
proof (induction B rule: rev_induct)
  case Nil
  then show ?case by simp
next
  case (snoc x B)
  show ?case
  proof (cases "Q x")
    case True
    then have "B @ [x] = (B @ [x]) @ [] \<and> filter Q [] = [] \<and> Q (last (B @ [x]))" by simp
    then show ?thesis by blast
  next
    case False
    from snoc obtain xs ys where "B = xs @ ys" "filter Q ys = []" "xs = [] \<or> Q (last xs)"
      by blast
    with False have "B @ [x] = xs @ (ys @ [x]) \<and> filter Q (ys @ [x]) = [] \<and> (xs = [] \<or> Q (last xs))"
      by simp
    then show ?thesis by blast
  qed
qed

text \<open>One level of the descent: from the predecessor a level up to the predecessor here.\<close>

lemma advance_step:
  assumes "wf s es" "n \<le> level s"
  shows "advance s k n (pred s k es (Suc n)) = Some (Inr (pred s k es n))"
proof -
  let ?P = "\<lambda>a. keyof s a < k"
  let ?B = "below s k es" and ?R = "rest s k es"
  obtain B1 B2 where B: "?B = B1 @ B2" "lev s (Suc n) B2 = []"
    "B1 = [] \<or> Suc n < height s (last B1)"
    unfolding lev_def using filter_split_last [of ?B "\<lambda>a. Suc n < height s a"] by blast
  let ?r = "pred s k es (Suc n)"
  have r: "?r = last_ref Header (lev s (Suc n) B1)"
    by (simp add: pred_def B)
  have r': "?r = last_ref Header (lev s n B1)" and rlen: "n < length (forward_of s ?r)"
  proof -
    show "?r = last_ref Header (lev s n B1)"
    proof (cases B1 rule: rev_cases)
      case Nil
      with r show ?thesis by simp
    next
      case (snoc B1' c)
      with B(3) have "Suc n < height s c" by simp
      with snoc r show ?thesis by (simp add: lev_Cons)
    qed
    show "n < length (forward_of s ?r)"
    proof (cases B1 rule: rev_cases)
      case Nil
      with r assms wf_level_lt [OF assms(1)] show ?thesis by simp
    next
      case (snoc B1' c)
      with B(3) have "Suc n < height s c" by simp
      with snoc r show ?thesis by (simp add: lev_Cons height_def)
    qed
  qed
  have es: "es = B1 @ B2 @ ?R"
    using below_rest [of s k es] B(1) by simp
  have "n < length (header s)"
    using assms wf_level_lt [OF assms(1)] by simp
  then have "chain s n Header (lev s n es)"
    using assms(1) by (simp add: wf_def)
  then have "chain s n Header (lev s n B1 @ (lev s n B2 @ lev s n ?R))"
    by (subst (asm) es) simp
  then have ch: "chain s n ?r (lev s n B2 @ lev s n ?R)"
    unfolding r' by (rule chain_suffix)
  have hs: "\<forall>a\<in>set (lev s n B2 @ lev s n ?R). n < height s a"
    by (auto simp: set_lev)
  have "\<forall>a\<in>set (lev s n B2). ?P a"
    using below_keys [of _ s k es] B(1) by (auto simp: set_lev)
  moreover have "\<forall>a\<in>set (lev s n ?R). \<not> ?P a"
    using rest_keys [of s es _ k] assms(1) by (auto simp: set_lev wf_def)
  ultimately have tw: "takeWhile ?P (lev s n B2 @ lev s n ?R) = lev s n B2"
    by (rule takeWhile_prefix)
  have "advance s k n ?r = Some (Inr (last_ref ?r (lev s n B2)))"
    using advance_ok [OF ch rlen hs, of k] tw by simp
  also have "last_ref ?r (lev s n B2) = pred s k es n"
    unfolding r' by (simp add: pred_def B(1) last_ref_append)
  finally show ?thesis .
qed

lemma pred_top:
  assumes "wf s es" "level s < n"
  shows "pred s k es n = Header"
proof -
  have "lev s n (below s k es) = []"
    unfolding lev_def filter_empty_conv
  proof
    fix a assume "a \<in> set (below s k es)"
    then have "a \<in> set es"
      unfolding below_def by (rule set_takeWhileD [THEN conjunct1])
    with assms show "\<not> n < height s a" by (auto simp: wf_def)
  qed
  then show ?thesis by (simp add: pred_def)
qed

lemma find_loop_ok:
  assumes "wf s es" "n \<le> level s + 1" "length upd = length (header s)"
  shows "\<exists>upd'. find_loop s k n (pred s k es n) upd = Some (Inr (pred s k es 0, upd')) \<and>
           length upd' = length upd \<and>
           (\<forall>j. upd' ! j = (if j < n then Some (pred s k es j) else upd ! j))"
  using assms(2,3)
proof (induction n arbitrary: upd)
  case 0
  then show ?case by simp
next
  case (Suc n)
  let ?upd = "upd[n := Some (pred s k es n)]"
  have n: "n < length upd"
    using Suc.prems wf_level_lt [OF assms(1)] by simp
  obtain upd' where u: "find_loop s k n (pred s k es n) ?upd = Some (Inr (pred s k es 0, upd'))"
    "length upd' = length ?upd" "\<And>j. upd' ! j = (if j < n then Some (pred s k es j) else ?upd ! j)"
    using Suc.IH [of ?upd] Suc.prems by auto
  have "advance s k n (pred s k es (Suc n)) = Some (Inr (pred s k es n))"
    using assms(1) Suc.prems by (intro advance_step) simp_all
  then have "find_loop s k (Suc n) (pred s k es (Suc n)) upd = Some (Inr (pred s k es 0, upd'))"
    using n u(1) by (simp add: and_then_def)
  moreover have "upd' ! j = (if j < Suc n then Some (pred s k es j) else upd ! j)" for j
    using u(3) [of j] n by (auto simp: nth_list_update less_Suc_eq)
  ultimately show ?case using u(2) by simp
qed

lemma search_loop_ok:
  assumes "wf s es" "n \<le> level s + 1"
  shows "search_loop s k n (pred s k es n) = Some (Inr (pred s k es 0))"
  using assms(2)
proof (induction n)
  case 0
  then show ?case by simp
next
  case (Suc n)
  have "advance s k n (pred s k es (Suc n)) = Some (Inr (pred s k es n))"
    using assms(1) Suc.prems by (intro advance_step) simp_all
  with Suc show ?case by (simp add: and_then_def)
qed

lemma wf_cong:
  assumes "wf s es" "max_level s' = max_level s" "length (header s') = length (header s)"
    "level s' = level s" "length (store s) \<le> length (store s')"
    "\<And>a. a \<in> set es \<Longrightarrow> keyof s' a = keyof s a \<and> height s' a = height s a"
    "\<And>i q. q = Header \<or> q \<in> Node ` set es \<Longrightarrow> nxr s' i q = nxr s i q"
  shows "wf s' es"
proof -
  have k: "map (keyof s') es = map (keyof s) es"
    using assms(6) by simp
  have l: "lev s' i es = lev s i es" for i
    unfolding lev_def using assms(6) by (intro filter_cong) simp_all
  have c: "chain s' i Header (lev s i es) = chain s i Header (lev s i es)" for i
    using assms(7) by (intro chain_cong) (auto simp: set_lev)
  show ?thesis
    using assms(1) unfolding wf_def k l c assms(2,3,4)
    using assms(5,6) by fastforce
qed

lemma wf_level_le:
  assumes "wf s es" "wf s' es" "\<And>a. a \<in> set es \<Longrightarrow> height s' a = height s a"
  shows "level s \<le> level s'"
proof (cases "level s = 0")
  case True
  then show ?thesis by simp
next
  case False
  with assms(1) obtain a where "a \<in> set es" "height s a = level s + 1"
    by (auto simp: wf_def)
  moreover from this assms(2) have "height s' a \<le> level s' + 1"
    by (auto simp: wf_def)
  ultimately show ?thesis using assms(3) [of a] by simp
qed

lemma wf_level_unique:
  assumes "wf s es" "wf s' es" "\<And>a. a \<in> set es \<Longrightarrow> height s' a = height s a"
  shows "level s' = level s"
  using wf_level_le [OF assms] wf_level_le [OF assms(2,1)] assms(3) by simp

lemma wf_header0: "wf s es \<Longrightarrow> 0 < length (header s)"
  by (drule wf_level_lt) linarith

lemma lev0:
  assumes "wf s es" "set xs \<subseteq> set es"
  shows "lev s 0 xs = xs"
  unfolding lev_def filter_id_conv using assms by (auto simp: wf_def)

lemma below_subset: "set (below s k es) \<subseteq> set es"
  unfolding below_def by (auto dest: set_takeWhileD)

lemma rest_subset: "set (rest s k es) \<subseteq> set es"
  unfolding rest_def by (auto dest: set_dropWhileD)

lemma pred_cases:
  "pred s k es i = Header \<or>
   (\<exists>c. pred s k es i = Node c \<and> c \<in> set (below s k es) \<and> c \<in> set es \<and> i < height s c)"
proof -
  let ?xs = "lev s i (below s k es)"
  show ?thesis
  proof (cases "?xs = []")
    case True
    then show ?thesis by (simp add: pred_def)
  next
    case False
    then have "pred s k es i = Node (last ?xs)"
      unfolding pred_def using last_ref_cases [of Header ?xs] by simp
    moreover have "last ?xs \<in> set ?xs"
      using False by simp
    then have "last ?xs \<in> set (below s k es) \<and> i < height s (last ?xs)"
      by (simp add: set_lev)
    ultimately show ?thesis using below_subset [of s k es] by blast
  qed
qed

lemma pred_links:
  assumes "wf s es" "i < length (header s)"
  shows "i < length (forward_of s (pred s k es i))"
  using pred_cases [of s k es i] assms(2) by (auto simp: height_def)

lemma pred_valid:
  assumes "wf s es" "pred s k es i = Node a"
  shows "a < length (store s)"
  using pred_cases [of s k es i] assms by (auto simp: wf_def)

lemma pred_chain:
  assumes "wf s es" "i < length (header s)"
  shows "chain s i (pred s k es i) (lev s i (rest s k es))"
proof -
  have "chain s i Header (lev s i (below s k es @ rest s k es))"
    using assms by (simp add: below_rest wf_def)
  then have "chain s i Header (lev s i (below s k es) @ lev s i (rest s k es))"
    by simp
  then show ?thesis
    unfolding pred_def by (rule chain_suffix)
qed

lemma pred0:
  assumes "wf s es"
  shows "pred s k es 0 = last_ref Header (below s k es)"
  by (simp add: pred_def lev0 [OF assms below_subset])

lemma front:
  assumes "wf s es"
  shows "get_forward s (pred s k es 0) 0 = Inr (case rest s k es of [] \<Rightarrow> None | c # cs \<Rightarrow> Some c)"
proof -
  have h: "0 < length (header s)"
    using assms by (rule wf_header0)
  have "chain s 0 (pred s k es 0) (rest s k es)"
    using pred_chain [OF assms h, of k] by (simp add: lev0 [OF assms rest_subset])
  then have "nxr s 0 (pred s k es 0) = (case rest s k es of [] \<Rightarrow> None | c # cs \<Rightarrow> Some c)"
    by (cases "rest s k es") simp_all
  then show ?thesis
    using pred_links [OF assms h, of k] by (simp add: get_forward_ok)
qed

lemma rest_hit:
  assumes "wf s es"
  shows "(\<exists>c cs. rest s k es = c # cs \<and> keyof s c = k) \<longleftrightarrow> k \<in> keyof s ` set es"
proof
  assume "\<exists>c cs. rest s k es = c # cs \<and> keyof s c = k"
  then obtain c cs where "rest s k es = c # cs" "keyof s c = k" by blast
  then show "k \<in> keyof s ` set es"
    using rest_subset [of s k es] by auto
next
  assume "k \<in> keyof s ` set es"
  then obtain a where a: "a \<in> set es" "keyof s a = k" by blast
  have "a \<notin> set (below s k es)"
    using below_keys [of a s k es] a by auto
  with a have ar: "a \<in> set (rest s k es)"
    using below_rest [of s k es] by (metis Un_iff set_append)
  then obtain c cs where r: "rest s k es = c # cs"
    by (cases "rest s k es") auto
  have srt: "sorted_wrt (<) (map (keyof s) es)"
    using assms by (simp add: wf_def)
  have "sorted_wrt (<) (map (keyof s) (below s k es @ c # cs))"
    using srt below_rest [of s k es] r by simp
  then have "\<forall>b\<in>set cs. keyof s c < keyof s b"
    by (simp add: sorted_wrt_append)
  moreover have "\<not> keyof s c < k"
    using rest_keys [OF srt, of c k] r by simp
  ultimately have "keyof s c = k"
    using ar a r by auto
  with r show "\<exists>c cs. rest s k es = c # cs \<and> keyof s c = k" by blast
qed

lemma lookup_rest:
  assumes "wf s es"
  shows "map_of (items s es) k =
     (case rest s k es of [] \<Rightarrow> None | c # cs \<Rightarrow> if keyof s c = k then Some (valof s c) else None)"
proof (cases "k \<in> keyof s ` set es")
  case False
  then have "map_of (items s es) k = None"
    by (simp add: items_def map_of_eq_None_iff image_image)
  moreover have "\<not> (\<exists>c cs. rest s k es = c # cs \<and> keyof s c = k)"
    using False rest_hit [OF assms] by blast
  ultimately show ?thesis by (cases "rest s k es") auto
next
  case True
  then obtain c cs where r: "rest s k es = c # cs" "keyof s c = k"
    using rest_hit [OF assms] by blast
  have "\<forall>a\<in>set (below s k es). keyof s a \<noteq> k"
    using below_keys [of _ s k es] by fastforce
  then have "k \<notin> fst ` set (items s (below s k es))"
    by (auto simp: items_def)
  then have "map_of (items s (below s k es)) k = None"
    by (simp add: map_of_eq_None_iff)
  moreover have "items s es = items s (below s k es) @ items s (c # cs)"
  proof -
    have "items s es = items s (below s k es @ c # cs)"
      using below_rest [of s k es] r by simp
    then show ?thesis by (simp add: items_def)
  qed
  ultimately have "map_of (items s es) k = map_of (items s (c # cs)) k"
    by (simp add: map_add_def)
  with r show ?thesis by (simp add: items_def)
qed

lemma search_ok:
  assumes "wf s es"
  shows "search s k = Some (Inr (case map_of (items s es) k of None \<Rightarrow> None | Some v \<Rightarrow> v))"
proof -
  have "search_loop s k (level s + 1) Header = Some (Inr (pred s k es 0))"
    using search_loop_ok [OF assms, of "level s + 1" k] pred_top [OF assms, of "level s + 1" k]
    by simp
  then show ?thesis
    unfolding search_def lookup_rest [OF assms]
    by (cases "rest s k es") (simp_all add: and_then_def front [OF assms] keyof_def valof_def)
qed

lemma display_level_ok:
  assumes "wf s es" "i < length (header s)"
  shows "display_level s i = Some (Inr (items s (lev s i es)))"
proof -
  have "chain s i Header (lev s i es)"
    using assms by (simp add: wf_def)
  moreover have "\<forall>a\<in>set (lev s i es). i < height s a"
    by (simp add: set_lev)
  ultimately have "walk s i (nxr s i Header) [] = Some (Inr ([] @ items s (lev s i es)))"
    unfolding items_def by (rule walk_ok)
  then show ?thesis
    using assms(2) by (simp add: display_level_def get_forward_ok)
qed

lemma get_all_items_ok:
  assumes "wf s es"
  shows "get_all_items s = Some (Inr (items s es))"
  using display_level_ok [OF assms wf_header0 [OF assms]] lev0 [OF assms subset_refl]
  by (simp add: get_all_items_def)

lemma len_ok:
  assumes "wf s es"
  shows "len s = Some (Inr (length es))"
  using display_level_ok [OF assms wf_header0 [OF assms]] lev0 [OF assms subset_refl]
  by (simp add: len_def and_then_def items_def)

lemma find_update_ok:
  assumes "wf s es"
  shows "\<exists>upd. find_update s k = Some (Inr (pred s k es 0, upd)) \<and> length upd = length (header s) \<and>
           (\<forall>j\<le>level s. upd ! j = Some (pred s k es j))"
proof -
  let ?u = "replicate (nat (max_level s + 1)) None :: ref option list"
  have "length ?u = length (header s)"
    using assms by (simp add: wf_def)
  from find_loop_ok [OF assms _ this, of "level s + 1" k]
  obtain upd where u: "find_loop s k (level s + 1) (pred s k es (level s + 1)) ?u = Some (Inr (pred s k es 0, upd))"
    "length upd = length ?u" "\<And>j. upd ! j = (if j < level s + 1 then Some (pred s k es j) else ?u ! j)"
    by auto
  have "find_update s k = Some (Inr (pred s k es 0, upd))"
    unfolding find_update_def using u(1) pred_top [OF assms, of "level s + 1" k] by simp
  moreover have "length upd = length (header s)"
    using u(2) \<open>length ?u = length (header s)\<close> by simp
  moreover have "\<forall>j\<le>level s. upd ! j = Some (pred s k es j)"
    using u(3) by simp
  ultimately show ?thesis by blast
qed

lemma wf_set_val:
  fixes v :: "'v option"
  assumes "wf s es" "c \<in> set es"
  defines "s' \<equiv> s\<lparr>store := (store s)[c := (store s ! c)\<lparr>val := v\<rparr>]\<rparr>"
  shows "wf s' es" and "\<And>a. keyof s' a = keyof s a" and "\<And>a. height s' a = height s a"
    and "\<And>a. valof s' a = (if a = c then v else valof s a)"
    and "\<And>i q. nxr s' i q = nxr s i q"
proof -
  have c: "c < length (store s)"
    using assms(1,2) by (auto simp: wf_def)
  show k: "keyof s' a = keyof s a" for a
    using c by (cases "a = c") (simp_all add: s'_def keyof_def)
  show h: "height s' a = height s a" for a
    using c by (cases "a = c") (simp_all add: s'_def height_def)
  show "valof s' a = (if a = c then v else valof s a)" for a
    using c by (simp add: s'_def valof_def)
  show n: "nxr s' i q = nxr s i q" for i q
  proof (cases q)
    case Header
    then show ?thesis by (simp add: s'_def nxr_def)
  next
    case (Node a)
    then show ?thesis
      using c by (cases "a = c") (simp_all add: s'_def nxr_def)
  qed
  show "wf s' es"
    using assms(1)
  proof (rule wf_cong)
    show "keyof s' a = keyof s a \<and> height s' a = height s a" for a
      using k h by simp
  qed (simp_all add: n, simp_all add: s'_def)
qed

lemma insert_existing:
  assumes "wf s es" "k \<in> keyof s ` set es"
  shows "\<exists>c\<in>set es. keyof s c = k \<and>
           insert_item k v s g = Some (Inr (s\<lparr>store := (store s)[c := (store s ! c)\<lparr>val := v\<rparr>]\<rparr>, g))"
proof -
  obtain c cs where r: "rest s k es = c # cs" "keyof s c = k"
    using rest_hit [OF assms(1)] assms(2) by blast
  obtain upd where u: "find_update s k = Some (Inr (pred s k es 0, upd))"
    using find_update_ok [OF assms(1)] by blast
  have "insert_item k v s g = Some (Inr (s\<lparr>store := (store s)[c := (store s ! c)\<lparr>val := v\<rparr>]\<rparr>, g))"
    using u r front [OF assms(1), of k] by (simp add: insert_item_def and_then_def keyof_def)
  moreover have "c \<in> set es"
    using r rest_subset [of s k es] by auto
  ultimately show ?thesis using r(2) by blast
qed

lemma insert_absent:
  assumes "wf s es" "k \<notin> keyof s ` set es"
  shows "\<exists>upd. insert_item k v s g = Some (insert_new k v upd s g) \<and> length upd = length (header s) \<and>
           (\<forall>j\<le>level s. upd ! j = Some (pred s k es j))"
proof -
  obtain upd where u: "find_update s k = Some (Inr (pred s k es 0, upd))"
    "length upd = length (header s)" "\<forall>j\<le>level s. upd ! j = Some (pred s k es j)"
    using find_update_ok [OF assms(1)] by blast
  have no: "\<not> (\<exists>c cs. rest s k es = c # cs \<and> keyof s c = k)"
    using rest_hit [OF assms(1)] assms(2) by blast
  have "insert_item k v s g = Some (insert_new k v upd s g)"
  proof (cases "rest s k es")
    case Nil
    then show ?thesis
      using u(1) front [OF assms(1), of k] by (simp add: insert_item_def and_then_def)
  next
    case (Cons c cs)
    with no have "keyof s c \<noteq> k" by simp
    with Cons show ?thesis
      using u(1) front [OF assms(1), of k] by (simp add: insert_item_def and_then_def keyof_def)
  qed
  with u(2,3) show ?thesis by blast
qed

lemma lev_split: "lev s i (below s k es) @ lev s i (rest s k es) = lev s i es"
proof -
  have "lev s i es = lev s i (below s k es @ rest s k es)"
    by (simp only: below_rest)
  then show ?thesis by simp
qed

lemma sorted_insert_key:
  assumes "sorted_wrt (<) (map (keyof s) es)" "k \<notin> keyof s ` set es"
    "\<And>a. a \<in> set es \<Longrightarrow> keyof s' a = keyof s a" "keyof s' new = k"
  shows "sorted_wrt (<) (map (keyof s') (below s k es @ new # rest s k es))"
proof -
  let ?B = "below s k es" and ?R = "rest s k es"
  have same: "map (keyof s') xs = map (keyof s) xs" if "set xs \<subseteq> set es" for xs
    using that assms(3) by (intro map_cong) auto
  have "sorted_wrt (<) (map (keyof s) (?B @ ?R))"
    using assms(1) by (simp add: below_rest)
  then have srt: "sorted_wrt (<) (map (keyof s) ?B)" "sorted_wrt (<) (map (keyof s) ?R)"
    by (simp_all add: sorted_wrt_append)
  have lo: "keyof s a < k" if "a \<in> set ?B" for a
    using that by (rule below_keys)
  have hi: "k < keyof s a" if "a \<in> set ?R" for a
  proof -
    have "\<not> keyof s a < k" using assms(1) that by (rule rest_keys)
    moreover have "keyof s a \<noteq> k" using that rest_subset [of s k es] assms(2) by auto
    ultimately show ?thesis by simp
  qed
  have "sorted_wrt (<) (map (keyof s) ?B @ k # map (keyof s) ?R)"
    using srt lo hi by (fastforce simp: sorted_wrt_append)
  moreover have "map (keyof s') (?B @ new # ?R) = map (keyof s) ?B @ k # map (keyof s) ?R"
    using below_subset [of s k es] rest_subset [of s k es] assms(3,4) by auto
  ultimately show ?thesis
    by (simp only:)
qed

lemma insert_new_ok:
  fixes s :: "('k::linorder, 'v) SkipList"
  assumes wf: "wf s es" and k: "k \<notin> keyof s ` set es"
    and len: "length upd = length (header s)"
    and upd: "\<forall>j\<le>level s. upd ! j = Some (pred s k es j)"
  shows "\<exists>s'. insert_new k v upd s g = Inr (s', snd (random_level s g)) \<and>
           wf s' (below s k es @ length (store s) # rest s k es) \<and>
           keyof s' (length (store s)) = k \<and> valof s' (length (store s)) = v \<and>
           height s' (length (store s)) = fst (random_level s g) + 1 \<and>
           (\<forall>a\<in>set es. keyof s' a = keyof s a \<and> valof s' a = valof s a \<and> height s' a = height s a) \<and>
           max_level s' = max_level s \<and> p s' = p s \<and> level s' = max (level s) (fst (random_level s g))"
proof -
  let ?B = "below s k es" and ?R = "rest s k es"
  define L where "L = fst (random_level s g)"
  define g' where "g' = snd (random_level s g)"
  define new where "new = length (store s)"
  define s1 where "s1 = s\<lparr>level := max (level s) L\<rparr>"
  define s2 where "s2 = s1\<lparr>store := store s1 @ [new_node k v L]\<rparr>"
  let ?U = "pred s k es"
  have rl: "random_level s g = (L, g')"
    by (simp add: L_def g'_def)
  have Lh: "L < length (header s)"
    using random_level_le [of s g] wf unfolding L_def wf_def by linarith
  have old: "a < new" if "a \<in> set es" for a
    using that wf by (auto simp: wf_def new_def)
  have newes: "new \<notin> set es"
    using old by auto
  \<comment> \<open>the update vector after the header has been filled in\<close>
  have "\<exists>upd'. (if L > level s
                 then map_sum id (\<lambda>u. (u, s\<lparr>level := L\<rparr>)) (fill_header [level s + 1 ..< L + 1] upd)
                 else Inr (upd, s)) = Inr (upd', s1) \<and>
          length upd' = length (header s) \<and> (\<forall>j\<le>L. upd' ! j = Some (?U j))"
  proof (cases "L > level s")
    case True
    have "\<forall>i\<in>set [level s + 1 ..< L + 1]. i < length upd"
      using Lh len by auto
    from fill_header_ok [OF this] obtain upd' where f:
      "fill_header [level s + 1 ..< L + 1] upd = Inr upd'" "length upd' = length upd"
      "\<And>j. upd' ! j = (if j \<in> set [level s + 1 ..< L + 1] then Some Header else upd ! j)"
      by blast
    have jin: "j \<in> set [level s + 1 ..< L + 1] \<longleftrightarrow> level s < j \<and> j \<le> L" for j
      by auto
    have "upd' ! j = Some (?U j)" if "j \<le> L" for j
    proof (cases "j \<le> level s")
      case True
      with f(3) [of j] upd show ?thesis unfolding jin by simp
    next
      case False
      with f(3) [of j] that pred_top [OF wf, of j k] show ?thesis unfolding jin by simp
    qed
    moreover have "s\<lparr>level := L\<rparr> = s1"
      using True by (simp add: s1_def max_def)
    ultimately show ?thesis
      using True f(1,2) len by simp
  next
    case False
    then have "s1 = s" by (simp add: s1_def max_def)
    with False upd len show ?thesis by simp
  qed
  then obtain upd' where u': "(if L > level s
                 then map_sum id (\<lambda>u. (u, s\<lparr>level := L\<rparr>)) (fill_header [level s + 1 ..< L + 1] upd)
                 else Inr (upd, s)) = Inr (upd', s1)"
    "length upd' = length (header s)" "\<And>j. j \<le> L \<Longrightarrow> upd' ! j = Some (?U j)"
    by blast
  \<comment> \<open>the store with the new node in it, not yet linked\<close>
  have st2: "store s2 = store s @ [new_node k v L]" "header s2 = header s"
    "max_level s2 = max_level s" "p s2 = p s" "level s2 = max (level s) L"
    by (simp_all add: s2_def s1_def)
  have node2: "store s2 ! a = store s ! a" if "a < new" for a
    using that by (simp add: st2 new_def nth_append)
  have new2: "store s2 ! new = new_node k v L"
    by (simp add: st2 new_def)
  have fw2: "forward_of s2 q = forward_of s q" if "q = Header \<or> (\<exists>a. q = Node a \<and> a < new)" for q
    using that node2 st2(2) by auto
  have nx2: "nxr s2 j q = nxr s j q" if "q = Header \<or> (\<exists>a. q = Node a \<and> a < new)" for q j
    using fw2 [OF that] by (simp add: nxr_def)
  have h2: "height s2 a = height s a" "keyof s2 a = keyof s a" "valof s2 a = valof s a" if "a < new" for a
    using node2 [OF that] by (simp_all add: height_def keyof_def valof_def)
  have hn2: "height s2 new = L + 1" "keyof s2 new = k" "valof s2 new = v"
    using new2 by (simp_all add: height_def keyof_def valof_def new_node_def)
  have Uold: "?U i = Header \<or> (\<exists>a. ?U i = Node a \<and> a < new)" for i
    using pred_cases [of s k es i] old by auto
  \<comment> \<open>the splice\<close>
  have "\<exists>s'. splice_links [0 ..< L + 1] upd' new s2 = Inr s' \<and> same_nodes s2 s' \<and>
           (\<forall>j q. nxr s' j q =
              (if j \<in> set [0 ..< L + 1]
               then (if q = ?U j then Some new else if q = Node new then nxr s2 j (?U j) else nxr s2 j q)
               else nxr s2 j q))"
  proof (rule splice_links_ok)
    show "distinct [0 ..< L + 1]" by simp
    show "new < length (store s2)" by (simp add: st2 new_def)
    show "\<forall>i\<in>set [0 ..< L + 1]. i < length upd' \<and> upd' ! i = Some (?U i) \<and>
        i < length (forward_of s2 (?U i)) \<and> i < height s2 new \<and> ?U i \<noteq> Node new \<and>
        (\<forall>a. ?U i = Node a \<longrightarrow> a < length (store s2))"
    proof
      fix i assume "i \<in> set [0 ..< L + 1]"
      then have i: "i \<le> L" by auto
      then have ih: "i < length (header s)" using Lh by simp
      have "i < length (forward_of s2 (?U i))"
        using pred_links [OF wf ih, of k] fw2 [OF Uold [of i]] by simp
      moreover have "?U i \<noteq> Node new" "\<forall>a. ?U i = Node a \<longrightarrow> a < length (store s2)"
        using Uold [of i] by (auto simp: st2 new_def)
      ultimately show "i < length upd' \<and> upd' ! i = Some (?U i) \<and>
        i < length (forward_of s2 (?U i)) \<and> i < height s2 new \<and> ?U i \<noteq> Node new \<and>
        (\<forall>a. ?U i = Node a \<longrightarrow> a < length (store s2))"
        using i ih u'(2) u'(3) [OF i] hn2(1) by simp
    qed
  qed
  then obtain s3 where s3: "splice_links [0 ..< L + 1] upd' new s2 = Inr s3" "same_nodes s2 s3"
    "\<And>j q. nxr s3 j q =
       (if j \<le> L then (if q = ?U j then Some new else if q = Node new then nxr s2 j (?U j) else nxr s2 j q)
        else nxr s2 j q)"
    by (auto simp: less_Suc_eq_le)
  have run: "insert_new k v upd s g = Inr (s3, g')"
    unfolding insert_new_def rl using u'(1) s3(1)
    by (simp add: Let_def s2_def new_def s1_def)
  have st3: "max_level s3 = max_level s" "p s3 = p s" "level s3 = max (level s) L"
    "length (store s3) = length (store s) + 1" "length (header s3) = length (header s)"
    using s3(2) same_nodes_header [OF s3(2)] st2 by (simp_all add: same_nodes_def)
  have h3: "height s3 a = height s2 a" "keyof s3 a = keyof s2 a" "valof s3 a = valof s2 a" for a
    using s3(2) same_nodes_height [OF s3(2)] by (simp_all add: same_nodes_def)
  have hold: "height s3 a = height s a" "keyof s3 a = keyof s a" "valof s3 a = valof s a"
    if "a \<in> set es" for a
    using h3 h2 [OF old [OF that]] by simp_all
  \<comment> \<open>the new state is well formed\<close>
  have levold: "lev s3 i xs = lev s i xs" if "set xs \<subseteq> set es" for xs i
    unfolding lev_def using that hold(1) by (intro filter_cong) auto
  have lev3: "lev s3 i (?B @ new # ?R) = lev s i ?B @ (if i \<le> L then [new] else []) @ lev s i ?R" for i
    using levold [OF below_subset [of s k es]] levold [OF rest_subset [of s k es]] h3(1) [of new] hn2(1)
    by (simp add: lev_Cons)
  have dist: "distinct es"
    using wf by (rule wf_distinct)
  have ch3: "chain s3 i Header (lev s3 i (?B @ new # ?R))" if ih: "i < length (header s)" for i
  proof -
    have ch: "chain s i Header (lev s i ?B @ lev s i ?R)"
      unfolding lev_split using wf ih by (simp add: wf_def)
    have sub: "set (lev s i ?B @ lev s i ?R) \<subseteq> set es"
      using below_subset [of s k es] rest_subset [of s k es] by (auto simp: set_lev)
    have U: "?U i = last_ref Header (lev s i ?B)"
      by (simp add: pred_def)
    show ?thesis
    proof (cases "i \<le> L")
      case True
      have "chain s3 i Header (lev s i ?B @ new # lev s i ?R)"
      proof (rule chain_splice [OF ch])
        show "new \<notin> set (lev s i ?B @ lev s i ?R)" using sub newes by auto
        show "distinct (lev s i ?B @ lev s i ?R)"
          unfolding lev_split using dist by (simp add: lev_def)
        show "Header \<notin> Node ` set (lev s i ?B @ lev s i ?R)" by auto
        show "Header \<noteq> Node new" by simp
        show "nxr s3 i (Node new) = nxr s i (last_ref Header (lev s i ?B))"
          using s3(3) [of i "Node new"] True Uold [of i] nx2 [OF Uold [of i], of i] U by auto
        show "nxr s3 i (last_ref Header (lev s i ?B)) = Some new"
          using s3(3) [of i "?U i"] True U by simp
        show "nxr s3 i q = nxr s i q"
          if "q = Header \<or> q \<in> Node ` set (lev s i ?B @ lev s i ?R)" "q \<noteq> last_ref Header (lev s i ?B)" for q
        proof -
          from that(1) sub old have o: "q = Header \<or> (\<exists>a. q = Node a \<and> a < new)" by auto
          then have "q \<noteq> Node new" by auto
          with s3(3) [of i q] that(2) U nx2 [OF o, of i] show ?thesis by simp
        qed
      qed
      with True show ?thesis unfolding lev3 by simp
    next
      case False
      have "chain s3 i Header (lev s i ?B @ lev s i ?R) = chain s i Header (lev s i ?B @ lev s i ?R)"
      proof (rule chain_cong)
        fix q assume "q = Header \<or> q \<in> Node ` set (lev s i ?B @ lev s i ?R)"
        with sub old have o: "q = Header \<or> (\<exists>a. q = Node a \<and> a < new)" by auto
        with s3(3) [of i q] False nx2 [OF o, of i] show "nxr s3 i q = nxr s i q" by simp
      qed
      with ch False show ?thesis unfolding lev3 by simp
    qed
  qed
  have "wf s3 (?B @ new # ?R)"
    unfolding wf_def
  proof (intro conjI)
    show "0 \<le> max_level s3" "length (header s3) = nat (max_level s3 + 1)"
      using wf st3 by (simp_all add: wf_def)
    show "int (level s3) \<le> max_level s3"
      using wf st3 random_level_le [of s g] by (auto simp: wf_def L_def max_def)
    show "sorted_wrt (<) (map (keyof s3) (?B @ new # ?R))"
    proof (rule sorted_insert_key)
      show "sorted_wrt (<) (map (keyof s) es)" using wf by (simp add: wf_def)
      show "keyof s3 new = k" using h3(2) hn2(2) by simp
    qed (use k hold in auto)
    show "\<forall>a\<in>set (?B @ new # ?R). a < length (store s3) \<and> 0 < height s3 a \<and> height s3 a \<le> level s3 + 1"
    proof
      fix a assume "a \<in> set (?B @ new # ?R)"
      then consider "a = new" | "a \<in> set es"
        using below_subset [of s k es] rest_subset [of s k es] by auto
      then show "a < length (store s3) \<and> 0 < height s3 a \<and> height s3 a \<le> level s3 + 1"
      proof cases
        case 1
        then show ?thesis using h3(1) [of new] hn2(1) st3 by (simp add: new_def)
      next
        case 2
        with wf have "a < length (store s) \<and> 0 < height s a \<and> height s a \<le> level s + 1"
          by (simp add: wf_def)
        with hold(1) [OF 2] st3 show ?thesis by (auto simp: max_def)
      qed
    qed
    show "\<forall>i<length (header s3). chain s3 i Header (lev s3 i (?B @ new # ?R))"
      using ch3 st3 by simp
    show "level s3 = 0 \<or> (\<exists>a\<in>set (?B @ new # ?R). height s3 a = level s3 + 1)"
    proof (cases "level s < L")
      case True
      then have "height s3 new = level s3 + 1"
        using h3(1) [of new] hn2(1) st3 by simp
      then show ?thesis by auto
    next
      case False
      then have l: "level s3 = level s" using st3 by simp
      show ?thesis
      proof (cases "level s = 0")
        case True
        with l show ?thesis by simp
      next
        case False
        with wf obtain a where a: "a \<in> set es" "height s a = level s + 1"
          by (auto simp: wf_def)
        then have "a \<in> set (?B @ new # ?R)"
          using below_rest [of s k es] by (metis Un_iff list.set_intros(2) set_append)
        with a hold(1) [OF a(1)] l show ?thesis by auto
      qed
    qed
  qed
  with run st3 hold h3 [of new] hn2 show ?thesis
    unfolding L_def [symmetric] g'_def [symmetric] new_def [symmetric] by auto
qed

lemma level_update_shape [simp]:
  "nxr (s\<lparr>level := l\<rparr>) i q = nxr s i q"
  "height (s\<lparr>level := l\<rparr>) a = height s a"
  "keyof (s\<lparr>level := l\<rparr>) a = keyof s a"
  "valof (s\<lparr>level := l\<rparr>) a = valof s a"
  by (cases q) (simp_all add: nxr_def height_def keyof_def valof_def)

lemma level_update_chain [simp]: "chain (s\<lparr>level := l\<rparr>) i r as = chain s i r as"
  by (rule chain_cong) simp

lemma level_update_lev [simp]: "lev (s\<lparr>level := l\<rparr>) i es = lev s i es"
  by (simp add: lev_def)

lemma takeWhile_upt:
  assumes "h \<le> n" "\<And>i. i < n \<Longrightarrow> P i \<longleftrightarrow> i < h"
  shows "takeWhile P [0 ..< n] = [0 ..< h]"
proof -
  have "[0 ..< n] = [0 ..< h] @ [h ..< n]"
    using assms(1) upt_add_eq_append [of 0 h "n - h"] by simp
  moreover have "takeWhile P ([0 ..< h] @ [h ..< n]) = [0 ..< h]"
    using assms by (intro takeWhile_prefix) auto
  ultimately show ?thesis by simp
qed

lemma chain_Nil_iff: "chain s i r as \<Longrightarrow> as = [] \<longleftrightarrow> nxr s i r = None"
  by (cases as) simp_all

lemma delete_absent:
  assumes "wf s es" "k \<notin> keyof s ` set es"
  shows "delete k s = Some (Inr (False, s))"
proof -
  obtain upd where u: "find_update s k = Some (Inr (pred s k es 0, upd))"
    using find_update_ok [OF assms(1)] by blast
  have no: "\<not> (\<exists>c cs. rest s k es = c # cs \<and> keyof s c = k)"
    using rest_hit [OF assms(1)] assms(2) by blast
  show ?thesis
  proof (cases "rest s k es")
    case Nil
    then show ?thesis
      using u front [OF assms(1), of k] by (simp add: delete_def and_then_def)
  next
    case (Cons c cs)
    with no have "keyof s c \<noteq> k" by simp
    with Cons show ?thesis
      using u front [OF assms(1), of k] by (simp add: delete_def and_then_def keyof_def)
  qed
qed

lemma delete_present:
  fixes s :: "('k::linorder, 'v) SkipList"
  assumes wf: "wf s es" and k: "k \<in> keyof s ` set es"
  shows "\<exists>s'. delete k s = Some (Inr (True, s')) \<and>
           wf s' (filter (\<lambda>a. keyof s a \<noteq> k) es) \<and>
           (\<forall>a. keyof s' a = keyof s a \<and> valof s' a = valof s a \<and> height s' a = height s a) \<and>
           max_level s' = max_level s \<and> p s' = p s \<and> level s' \<le> level s"
proof -
  let ?B = "below s k es"
  let ?U = "pred s k es"
  obtain c R where r: "rest s k es = c # R" "keyof s c = k"
    using rest_hit [OF wf] k by blast
  have es: "es = ?B @ c # R"
    using below_rest [of s k es] r by simp
  have dist: "distinct es"
    using wf by (rule wf_distinct)
  have srt: "sorted_wrt (<) (map (keyof s) es)"
    using wf by (simp add: wf_def)
  have cB: "c \<notin> set ?B" "c \<notin> set R"
    using dist by (subst (asm) es, simp)+
  have ces: "c \<in> set es" "set ?B \<subseteq> set es" "set R \<subseteq> set es"
    by (subst es, auto)+
  have cst: "c < length (store s)" and hc: "0 < height s c" "height s c \<le> level s + 1"
    using wf ces(1) by (auto simp: wf_def)
  have kB: "keyof s a \<noteq> k" if "a \<in> set ?B" for a
    using below_keys [OF that] by simp
  have kR: "keyof s a \<noteq> k" if "a \<in> set R" for a
  proof -
    have "sorted_wrt (<) (map (keyof s) (?B @ c # R))"
      using srt by (subst (asm) es)
    then have "keyof s c < keyof s a"
      using that by (simp add: sorted_wrt_append)
    with r(2) show ?thesis by simp
  qed
  have es': "filter (\<lambda>a. keyof s a \<noteq> k) es = ?B @ R"
  proof -
    have "filter (\<lambda>a. keyof s a \<noteq> k) (?B @ c # R) = ?B @ R"
      using kB kR r(2) by (simp add: filter_id_conv)
    then show ?thesis by (subst es)
  qed
  have lev_es: "lev s i es = lev s i ?B @ lev s i (c # R)" for i
    by (subst es) simp
  have U: "?U i = last_ref Header (lev s i ?B)" for i
    by (simp add: pred_def)
  \<comment> \<open>the predecessor at level \<open>i\<close> points at the node exactly below the node's height\<close>
  have hit: "nxr s i (?U i) = Some c \<longleftrightarrow> i < height s c" if "i < length (header s)" for i
  proof -
    have ch: "chain s i (?U i) (lev s i (c # R))"
      using pred_chain [OF wf that, of k] r by simp
    show ?thesis
    proof (cases "i < height s c")
      case True
      with ch show ?thesis by (simp add: lev_Cons)
    next
      case False
      with ch have "chain s i (?U i) (lev s i R)" by (simp add: lev_Cons)
      moreover have "c \<notin> set (lev s i R)"
        using cB(2) by (simp add: set_lev)
      ultimately have "nxr s i (?U i) \<noteq> Some c"
        by (cases "lev s i R") auto
      with False show ?thesis by simp
    qed
  qed
  obtain upd where u: "find_update s k = Some (Inr (?U 0, upd))"
    "length upd = length (header s)" "\<forall>j\<le>level s. upd ! j = Some (?U j)"
    using find_update_ok [OF wf] by blast
  have lh: "level s < length (header s)"
    using wf by (rule wf_level_lt)
  \<comment> \<open>the unlink\<close>
  have "\<exists>s'. unlink [0 ..< level s + 1] upd c s = Inr s' \<and> same_nodes s s' \<and>
           (\<forall>j q. nxr s' j q =
              (if j \<in> set (takeWhile (\<lambda>i. nxr s i (?U i) = Some c) [0 ..< level s + 1]) \<and> q = ?U j
               then nxr s j (Node c) else nxr s j q))"
  proof (rule unlink_ok)
    show "distinct [0 ..< level s + 1]" by simp
    show "c < length (store s)" by (rule cst)
    show "\<forall>i\<in>set [0 ..< level s + 1]. i < length upd \<and> upd ! i = Some (?U i) \<and>
        i < length (forward_of s (?U i)) \<and> (nxr s i (?U i) = Some c \<longrightarrow> i < height s c) \<and>
        (\<forall>a. ?U i = Node a \<longrightarrow> a < length (store s))"
    proof
      fix i assume "i \<in> set [0 ..< level s + 1]"
      then have i: "i \<le> level s" by auto
      then have ih: "i < length (header s)" using lh by simp
      show "i < length upd \<and> upd ! i = Some (?U i) \<and>
        i < length (forward_of s (?U i)) \<and> (nxr s i (?U i) = Some c \<longrightarrow> i < height s c) \<and>
        (\<forall>a. ?U i = Node a \<longrightarrow> a < length (store s))"
        using i ih u(2,3) pred_links [OF wf ih, of k] hit [OF ih] pred_valid [OF wf, of k i]
        by simp
    qed
  qed
  moreover have "takeWhile (\<lambda>i. nxr s i (?U i) = Some c) [0 ..< level s + 1] = [0 ..< height s c]"
    using hc(2) lh by (intro takeWhile_upt hit) simp_all
  ultimately obtain s1 where s1: "unlink [0 ..< level s + 1] upd c s = Inr s1" "same_nodes s s1"
    "\<And>j q. nxr s1 j q = (if j < height s c \<and> q = ?U j then nxr s j (Node c) else nxr s j q)"
    by auto
  have st1: "max_level s1 = max_level s" "p s1 = p s" "level s1 = level s"
    "length (store s1) = length (store s)" "length (header s1) = length (header s)"
    using s1(2) same_nodes_header [OF s1(2)] by (simp_all add: same_nodes_def)
  have h1: "height s1 a = height s a" "keyof s1 a = keyof s a" "valof s1 a = valof s a" for a
    using s1(2) same_nodes_height [OF s1(2)] by (simp_all add: same_nodes_def)
  have lev1: "lev s1 i xs = lev s i xs" for i xs
    using s1(2) by (rule same_nodes_lev)
  \<comment> \<open>the chains after the unlink\<close>
  have ch1: "chain s1 i Header (lev s i (?B @ R))" if ih: "i < length (header s)" for i
  proof -
    have ch: "chain s i Header (lev s i ?B @ lev s i (c # R))"
      using wf ih unfolding lev_es [symmetric] by (simp add: wf_def)
    show ?thesis
    proof (cases "i < height s c")
      case True
      have "chain s1 i Header (lev s i ?B @ lev s i R)"
      proof (rule chain_unlink [where c = c and s = s])
        show "chain s i Header (lev s i ?B @ c # lev s i R)"
          using ch True by (simp add: lev_Cons)
        have "distinct (lev s i es)" using dist by (simp add: lev_def)
        then show "distinct (lev s i ?B @ c # lev s i R)"
          unfolding lev_es using True by (simp add: lev_Cons)
        show "Header \<notin> Node ` set (lev s i ?B @ c # lev s i R)" by auto
        show "nxr s1 i (last_ref Header (lev s i ?B)) = nxr s i (Node c)"
          using s1(3) [of i "?U i"] True U by simp
        show "nxr s1 i q = nxr s i q" if "q \<noteq> last_ref Header (lev s i ?B)" for q
          using s1(3) [of i q] that U by simp
      qed
      then show ?thesis by simp
    next
      case False
      have "chain s1 i Header (lev s i ?B @ lev s i R) = chain s i Header (lev s i ?B @ lev s i R)"
        using s1(3) [of i] False by (intro chain_cong) simp
      with ch False show ?thesis by (simp add: lev_Cons)
    qed
  qed
  \<comment> \<open>the level shrinks to the highest level still in use\<close>
  have "level s1 < length (header s1)"
    using lh st1 by simp
  from shrink_level_ok [OF this] obtain l where l: "shrink_level (header s1) (level s1) = Inr l"
    "l \<le> level s" "l = 0 \<or> header s1 ! l \<noteq> None"
    "\<And>j. l < j \<and> j \<le> level s \<Longrightarrow> header s1 ! j = None"
    unfolding st1 by blast
  let ?s = "s1\<lparr>level := l\<rparr>"
  have run: "delete k s = Some (Inr (True, ?s))"
    using u(1) front [OF wf, of k] r s1(1) l(1)
    by (simp add: delete_def and_then_def keyof_def)
  have hd1: "header s1 ! j = nxr s1 j Header" for j
    by (simp add: nxr_def)
  have top: "height s a \<le> l + 1" if a: "a \<in> set (?B @ R)" for a
  proof (rule ccontr)
    assume "\<not> height s a \<le> l + 1"
    moreover have "height s a \<le> level s + 1"
      using a ces wf by (auto simp: wf_def)
    ultimately have j: "l < height s a - 1 \<and> height s a - 1 \<le> level s" by linarith
    then have "height s a - 1 < length (header s)" using lh by simp
    from ch1 [OF this] have "chain s1 (height s a - 1) Header (lev s (height s a - 1) (?B @ R))" .
    moreover have "nxr s1 (height s a - 1) Header = None"
      using l(4) [OF j] hd1 by simp
    ultimately have "lev s (height s a - 1) (?B @ R) = []"
      by (rule chain_Nil_iff [THEN iffD2])
    moreover have "height s a - 1 < height s a"
      using j by linarith
    then have "a \<in> set (lev s (height s a - 1) (?B @ R))"
      unfolding set_lev using a by simp
    ultimately show False by simp
  qed
  have "wf ?s (?B @ R)"
    unfolding wf_def
  proof (intro conjI)
    show "0 \<le> max_level ?s" "length (header ?s) = nat (max_level ?s + 1)"
      using wf st1 by (simp_all add: wf_def)
    show "int (level ?s) \<le> max_level ?s"
      using wf st1 l(2) by (simp add: wf_def)
    have "sorted_wrt (<) (map (keyof s) (?B @ c # R))"
      using srt by (subst (asm) es)
    then have "sorted_wrt (<) (map (keyof s) (?B @ R))"
      by (simp add: sorted_wrt_append)
    moreover have "keyof ?s = keyof s"
      using h1(2) by (simp add: fun_eq_iff)
    ultimately show "sorted_wrt (<) (map (keyof ?s) (?B @ R))"
      by (simp only:)
    show "\<forall>a\<in>set (?B @ R). a < length (store ?s) \<and> 0 < height ?s a \<and> height ?s a \<le> level ?s + 1"
    proof
      fix a assume a: "a \<in> set (?B @ R)"
      then have "a \<in> set es" using ces by auto
      with wf have "a < length (store s) \<and> 0 < height s a"
        by (simp add: wf_def)
      with top [OF a] st1 h1(1) [of a]
      show "a < length (store ?s) \<and> 0 < height ?s a \<and> height ?s a \<le> level ?s + 1"
        by simp
    qed
    show "\<forall>i<length (header ?s). chain ?s i Header (lev ?s i (?B @ R))"
      using ch1 st1 by (simp add: lev1 del: lev_append)
    show "level ?s = 0 \<or> (\<exists>a\<in>set (?B @ R). height ?s a = level ?s + 1)"
    proof (cases "l = 0")
      case True
      then show ?thesis by simp
    next
      case False
      with l(3) have "nxr s1 l Header \<noteq> None" using hd1 by simp
      moreover have "chain s1 l Header (lev s l (?B @ R))"
        using l(2) lh by (intro ch1) simp
      ultimately obtain a as where "lev s l (?B @ R) = a # as"
        by (cases "lev s l (?B @ R)") auto
      then have "a \<in> set (lev s l (?B @ R))" by simp
      then have a: "a \<in> set (?B @ R)" "l < height s a"
        unfolding set_lev by simp_all
      with top [OF a(1)] have "height s a = l + 1" by simp
      with a(1) h1(1) [of a] show ?thesis by auto
    qed
  qed
  with run es' st1 h1 l(2) show ?thesis by auto
qed

lemma map_of_replace_at:
  "map_of (map (\<lambda>(k', v'). if k' = k then (k', v) else (k', v')) al) x =
     (if x = k \<and> k \<in> fst ` set al then Some v else map_of al x)"
proof (induction al)
  case Nil
  show ?case by simp
next
  case (Cons a al)
  obtain k' v' where a: "a = (k', v')" by (cases a)
  show ?case
  proof (cases "k' = k")
    case True
    with a Cons show ?thesis by simp
  next
    case False
    with a Cons show ?thesis by (cases "x = k'") simp_all
  qed
qed

lemma map_of_replace:
  "k \<in> fst ` set al \<Longrightarrow>
   map_of (map (\<lambda>(k', v'). if k' = k then (k', v) else (k', v')) al) = (map_of al)(k \<mapsto> v)"
  by (rule ext) (simp add: map_of_replace_at)

lemma map_of_insert_mid:
  "k \<notin> fst ` set xs \<Longrightarrow> map_of (xs @ (k, v) # ys) = (map_of (xs @ ys))(k \<mapsto> v)"
  by (induction xs) (auto simp: fun_eq_iff)

lemma map_of_filter_key:
  "map_of (filter (\<lambda>(k', v'). k' \<noteq> k) al) = (map_of al)(k := None)"
  by (induction al) (auto simp: fun_eq_iff)

lemma wf_keys_inj:
  assumes "wf s es"
  shows "inj_on (keyof s) (set es)"
proof -
  from assms have "sorted_wrt (<) (map (keyof s) es)" by (simp add: wf_def)
  then have "distinct (map (keyof s) es)" by (simp add: strict_sorted_iff)
  then show ?thesis by (simp add: distinct_map)
qed

lemma items_cong:
  "(\<And>a. a \<in> set xs \<Longrightarrow> keyof s' a = keyof s a \<and> valof s' a = valof s a) \<Longrightarrow>
   items s' xs = items s xs"
  by (simp add: items_def)

text \<open>What insert and delete do to a well-formed store.\<close>

lemma insert_existing_items:
  assumes "wf s es" "k \<in> keyof s ` set es"
  shows "\<exists>s'. insert_item k v s g = Some (Inr (s', g)) \<and> wf s' es \<and>
           items s' es = map (\<lambda>(k', v'). if k' = k then (k', v) else (k', v')) (items s es) \<and>
           (\<forall>a. height s' a = height s a) \<and> (\<forall>i q. nxr s' i q = nxr s i q) \<and>
           header s' = header s \<and> level s' = level s \<and> max_level s' = max_level s \<and> p s' = p s \<and>
           map forward (store s') = map forward (store s) \<and> map key (store s') = map key (store s)"
proof -
  obtain c where c: "c \<in> set es" "keyof s c = k" and
    run: "insert_item k v s g = Some (Inr (s\<lparr>store := (store s)[c := (store s ! c)\<lparr>val := v\<rparr>]\<rparr>, g))"
    using insert_existing [OF assms] by blast
  let ?s = "s\<lparr>store := (store s)[c := (store s ! c)\<lparr>val := v\<rparr>]\<rparr>"
  note sv = wf_set_val [OF assms(1) c(1), of v]
  have "a = c \<longleftrightarrow> keyof s a = k" if "a \<in> set es" for a
    using wf_keys_inj [OF assms(1)] that c by (auto dest: inj_onD)
  then have "items ?s es = map (\<lambda>(k', v'). if k' = k then (k', v) else (k', v')) (items s es)"
    using sv(2,4) by (auto simp: items_def)
  moreover have "map forward (store ?s) = map forward (store s)" "map key (store ?s) = map key (store s)"
    by (simp_all add: map_update) (simp_all add: list_update_same_conv flip: map_update)
  ultimately show ?thesis
    using run sv(1,3,5) by simp
qed

lemma insert_absent_items:
  assumes "wf s es" "k \<notin> keyof s ` set es"
  shows "\<exists>s'. insert_item k v s g = Some (Inr (s', snd (random_level s g))) \<and>
           wf s' (below s k es @ length (store s) # rest s k es) \<and>
           items s' (below s k es @ length (store s) # rest s k es) =
             items s (below s k es) @ (k, v) # items s (rest s k es) \<and>
           keyof s' (length (store s)) = k \<and>
           (\<forall>a\<in>set es. keyof s' a = keyof s a \<and> valof s' a = valof s a \<and> height s' a = height s a) \<and>
           max_level s' = max_level s \<and> p s' = p s"
proof -
  obtain upd where u: "insert_item k v s g = Some (insert_new k v upd s g)"
    "length upd = length (header s)" "\<forall>j\<le>level s. upd ! j = Some (pred s k es j)"
    using insert_absent [OF assms] by blast
  from insert_new_ok [OF assms u(2,3), of v g] obtain s' where s':
    "insert_new k v upd s g = Inr (s', snd (random_level s g))"
    "wf s' (below s k es @ length (store s) # rest s k es)"
    "keyof s' (length (store s)) = k" "valof s' (length (store s)) = v"
    "\<forall>a\<in>set es. keyof s' a = keyof s a \<and> valof s' a = valof s a \<and> height s' a = height s a"
    "max_level s' = max_level s" "p s' = p s"
    by blast
  have "items s' (below s k es) = items s (below s k es)" "items s' (rest s k es) = items s (rest s k es)"
    using s'(5) below_subset [of s k es] rest_subset [of s k es] by (auto intro!: items_cong)
  then have "items s' (below s k es @ length (store s) # rest s k es) =
      items s (below s k es) @ (k, v) # items s (rest s k es)"
    using s'(3,4) by (simp add: items_def)
  with u(1) s' show ?thesis by auto
qed

lemma items_split: "items s (below s k es) @ items s (rest s k es) = items s es"
proof -
  have "items s es = items s (below s k es @ rest s k es)"
    by (simp only: below_rest)
  then show ?thesis by (simp add: items_def)
qed

lemma keys_items: "fst ` set (items s es) = keyof s ` set es"
  by (auto simp: items_def image_iff)

lemma insert_item_wf:
  assumes "wf s es"
  shows "\<exists>s' g' es'. insert_item k v s g = Some (Inr (s', g')) \<and> wf s' es' \<and>
           map_of (items s' es') = (map_of (items s es))(k \<mapsto> v) \<and>
           max_level s' = max_level s \<and> p s' = p s"
proof (cases "k \<in> keyof s ` set es")
  case True
  from insert_existing_items [OF assms True, of v g] obtain s' where s':
    "insert_item k v s g = Some (Inr (s', g))" "wf s' es"
    "items s' es = map (\<lambda>(k', v'). if k' = k then (k', v) else (k', v')) (items s es)"
    "max_level s' = max_level s" "p s' = p s"
    by blast
  have "map_of (items s' es) = (map_of (items s es))(k \<mapsto> v)"
    unfolding s'(3) using True by (intro map_of_replace) (simp add: keys_items)
  with s' show ?thesis by blast
next
  case False
  let ?es = "below s k es @ length (store s) # rest s k es"
  from insert_absent_items [OF assms False, of v g] obtain s' where s':
    "insert_item k v s g = Some (Inr (s', snd (random_level s g)))" "wf s' ?es"
    "items s' ?es = items s (below s k es) @ (k, v) # items s (rest s k es)"
    "max_level s' = max_level s" "p s' = p s"
    by blast
  have "k \<notin> fst ` set (items s (below s k es))"
    using False below_subset [of s k es] by (auto simp: keys_items)
  then have "map_of (items s' ?es) = (map_of (items s es))(k \<mapsto> v)"
    unfolding s'(3) by (simp add: map_of_insert_mid items_split del: map_of_append)
  with s' show ?thesis by blast
qed

lemma delete_present_items:
  assumes "wf s es" "k \<in> keyof s ` set es"
  shows "\<exists>s'. delete k s = Some (Inr (True, s')) \<and>
           wf s' (filter (\<lambda>a. keyof s a \<noteq> k) es) \<and>
           items s' (filter (\<lambda>a. keyof s a \<noteq> k) es) = filter (\<lambda>(k', v'). k' \<noteq> k) (items s es) \<and>
           (\<forall>a. keyof s' a = keyof s a \<and> valof s' a = valof s a \<and> height s' a = height s a) \<and>
           max_level s' = max_level s \<and> p s' = p s \<and> level s' \<le> level s"
proof -
  from delete_present [OF assms] obtain s' where s': "delete k s = Some (Inr (True, s'))"
    "wf s' (filter (\<lambda>a. keyof s a \<noteq> k) es)"
    "\<forall>a. keyof s' a = keyof s a \<and> valof s' a = valof s a \<and> height s' a = height s a"
    "max_level s' = max_level s" "p s' = p s" "level s' \<le> level s"
    by blast
  have "items s' (filter (\<lambda>a. keyof s a \<noteq> k) es) = filter (\<lambda>(k', v'). k' \<noteq> k) (items s es)"
    using s'(3) by (simp add: items_def filter_map comp_def)
  with s' show ?thesis by blast
qed

lemma delete_wf:
  assumes "wf s es"
  shows "\<exists>b s' es'. delete k s = Some (Inr (b, s')) \<and> wf s' es' \<and>
           map_of (items s' es') = (map_of (items s es))(k := None) \<and>
           max_level s' = max_level s \<and> p s' = p s"
proof (cases "k \<in> keyof s ` set es")
  case True
  from delete_present_items [OF assms True] obtain s' where s': "delete k s = Some (Inr (True, s'))"
    "wf s' (filter (\<lambda>a. keyof s a \<noteq> k) es)"
    "items s' (filter (\<lambda>a. keyof s a \<noteq> k) es) = filter (\<lambda>(k', v'). k' \<noteq> k) (items s es)"
    "max_level s' = max_level s" "p s' = p s"
    by blast
  have "map_of (items s' (filter (\<lambda>a. keyof s a \<noteq> k) es)) = (map_of (items s es))(k := None)"
    unfolding s'(3) by (rule map_of_filter_key)
  with s' show ?thesis by blast
next
  case False
  then have "map_of (items s es) k = None"
    by (simp add: map_of_eq_None_iff keys_items)
  then have "map_of (items s es) = (map_of (items s es))(k := None)"
    by (simp add: fun_eq_iff)
  with delete_absent [OF assms False] assms show ?thesis by blast
qed

lemma exec_ok:
  assumes "wf s es"
  shows "\<exists>s' g' es'. exec ops s g = Some (Inr (s', g')) \<and> wf s' es' \<and>
           map_of (items s' es') = stored ops (map_of (items s es)) \<and>
           max_level s' = max_level s \<and> p s' = p s"
  using assms
proof (induction ops arbitrary: s g es)
  case Nil
  then show ?case by auto
next
  case (Cons x ops)
  show ?case
  proof (cases x)
    case (Insert k v)
    from insert_item_wf [OF Cons.prems, of k v g] obtain s1 g1 es1 where s1:
      "insert_item k v s g = Some (Inr (s1, g1))" "wf s1 es1"
      "map_of (items s1 es1) = (map_of (items s es))(k \<mapsto> v)"
      "max_level s1 = max_level s" "p s1 = p s"
      by blast
    from Cons.IH [OF s1(2), of g1] obtain s' g' es' where s':
      "exec ops s1 g1 = Some (Inr (s', g'))" "wf s' es'"
      "map_of (items s' es') = stored ops (map_of (items s1 es1))"
      "max_level s' = max_level s1" "p s' = p s1"
      by blast
    have "exec (x # ops) s g = Some (Inr (s', g'))"
      using s1(1) s'(1) Insert by (simp add: and_then_def)
    moreover have "map_of (items s' es') = stored (x # ops) (map_of (items s es))"
      using s'(3) by (simp only: Insert stored.simps s1(3))
    ultimately show ?thesis
      using s'(2,4,5) s1(4,5) by auto
  next
    case (Delete k)
    from delete_wf [OF Cons.prems, of k] obtain b s1 es1 where s1:
      "delete k s = Some (Inr (b, s1))" "wf s1 es1"
      "map_of (items s1 es1) = (map_of (items s es))(k := None)"
      "max_level s1 = max_level s" "p s1 = p s"
      by blast
    from Cons.IH [OF s1(2), of g] obtain s' g' es' where s':
      "exec ops s1 g = Some (Inr (s', g'))" "wf s' es'"
      "map_of (items s' es') = stored ops (map_of (items s1 es1))"
      "max_level s' = max_level s1" "p s' = p s1"
      by blast
    have "exec (x # ops) s g = Some (Inr (s', g'))"
      using s1(1) s'(1) Delete by (simp add: and_then_def)
    moreover have "map_of (items s' es') = stored (x # ops) (map_of (items s es))"
      using s'(3) by (simp only: Delete stored.simps s1(3))
    ultimately show ?thesis
      using s'(2,4,5) s1(4,5) by auto
  qed
qed

lemma wf_init:
  assumes "0 \<le> ml"
  shows "wf \<lparr>max_level = ml, p = pr, header = replicate (nat (ml + 1)) None, level = 0, store = []\<rparr> []"
  using assms by (simp add: wf_def nxr_def)

lemma run_ok:
  assumes "0 \<le> ml"
  shows "\<exists>s es. run ml pr ops g = Some (Inr s) \<and> wf s es \<and>
           map_of (items s es) = stored ops Map.empty \<and> max_level s = ml \<and> p s = pr"
proof -
  let ?s = "\<lparr>max_level = ml, p = pr, header = replicate (nat (ml + 1)) None, level = 0, store = []\<rparr>"
  from exec_ok [OF wf_init [OF assms], of ops pr g] obtain s' g' es' where
    "exec ops ?s g = Some (Inr (s', g'))" "wf s' es'"
    "map_of (items s' es') = stored ops (map_of (items ?s []))" "max_level s' = ml" "p s' = pr"
    by auto
  then show ?thesis
    by (auto simp: run_def SkipList_init_def and_then_def items_def)
qed

lemma display_level_out:
  "\<not> i < length (header s) \<Longrightarrow> display_level s i = Some (Inl IndexError)"
  by (simp add: display_level_def get_forward_def)

lemma level_keys_ok:
  assumes "wf s es" "i < length (header s)"
  shows "level_keys s i = Some (Inr (map (keyof s) (lev s i es)))"
  using display_level_ok [OF assms] by (simp add: level_keys_def and_then_def items_def comp_def)

lemma wf_header_len: "wf s es \<Longrightarrow> i < length (header s) \<longleftrightarrow> int i \<le> max_level s"
  unfolding wf_def by linarith

lemma wf_header_above:
  assumes "wf s es" "level s < j" "j < length (header s)"
  shows "header s ! j = None"
proof -
  have "lev s j es = []"
    unfolding lev_def filter_empty_conv using assms(1,2) by (auto simp: wf_def)
  moreover have "chain s j Header (lev s j es)"
    using assms(1,3) by (simp add: wf_def)
  ultimately show ?thesis by (simp add: nxr_def)
qed

lemma wf_header_top:
  assumes "wf s es"
  shows "level s = 0 \<or> header s ! level s \<noteq> None"
proof (cases "level s = 0")
  case True
  then show ?thesis by simp
next
  case False
  with assms obtain a where "a \<in> set es" "height s a = level s + 1"
    by (auto simp: wf_def)
  then have "a \<in> set (lev s (level s) es)"
    by (simp add: set_lev)
  then obtain b bs where "lev s (level s) es = b # bs"
    by (cases "lev s (level s) es") auto
  moreover have "chain s (level s) Header (lev s (level s) es)"
    using assms wf_level_lt [OF assms] by (simp add: wf_def)
  ultimately show ?thesis by (simp add: nxr_def)
qed

lemma length_filter_other_keys:
  assumes "inj_on f (set xs)" "distinct xs" "c \<in> set xs"
  shows "length (filter (\<lambda>a. f a \<noteq> f c) xs) = length xs - 1"
proof -
  have "filter (\<lambda>a. \<not> f a \<noteq> f c) xs = filter (\<lambda>a. a = c) xs"
    using assms(1,3) by (intro filter_cong) (auto dest: inj_onD)
  also have "\<dots> = [c]"
    using assms(2,3) by (induction xs) (auto simp: filter_empty_conv)
  finally have "length (filter (\<lambda>a. \<not> f a \<noteq> f c) xs) = 1" by simp
  with sum_length_filter_compl [of "\<lambda>a. f a \<noteq> f c" xs] show ?thesis by simp
qed

lemma stored_present:
  assumes "wf s es" "map_of (items s es) = m"
  shows "m k \<noteq> None \<longleftrightarrow> k \<in> keyof s ` set es"
  using assms(2) [symmetric] by (simp add: map_of_eq_None_iff keys_items)

section \<open>The claims\<close>

text \<open>
  C9. For a container with \<open>max_level \<ge> 1\<close>, \<open>random_level\<close> returns for every sequence of
  draws and every \<open>p\<close>, also \<open>p \<ge> 1\<close> (the function is total), and the level it returns lies
  between 0 and \<open>max_level\<close>.
\<close>

theorem random_level_in_range:
  assumes "1 \<le> max_level s"
  shows "\<exists>l g'. random_level s g = (l, g') \<and> 0 \<le> int l \<and> int l \<le> max_level s"
proof -
  have "int (fst (random_level s g)) \<le> max_level s"
    using assms by (intro random_level_le) simp
  then show ?thesis
    by (cases "random_level s g") auto
qed

theorem random_level_in_range_witness:
  "(1::int) \<le> max_level \<lparr>max_level = 10, p = 2, header = replicate 11 None, level = 0, store = ([] :: (nat, nat) SkipNode list)\<rparr> \<and>
   (\<exists>l g'. random_level \<lparr>max_level = 10, p = 2, header = replicate 11 None, level = 0, store = ([] :: (nat, nat) SkipNode list)\<rparr> (fixed_rng (1 / 4)) = (l, g') \<and>
      0 \<le> int l \<and> int l \<le> 10)"
  using random_level_in_range [of "\<lparr>max_level = 10, p = 2, header = replicate 11 None, level = 0, store = ([] :: (nat, nat) SkipNode list)\<rparr>" "fixed_rng (1 / 4)"]
  by simp

text \<open>
  C3, as the code has it. The constructor checks nothing: for every \<open>max_level\<close> and every
  \<open>p\<close> it returns a container that holds the two arguments as they were given. With a
  negative \<open>max_level\<close> the header has no links, and the failure comes at the first use:
  \<open>search\<close>, \<open>insert\<close> and \<open>delete\<close> raise \<open>IndexError\<close>.
\<close>

theorem init_accepts_any_configuration:
  "\<exists>s :: ('k::linorder, 'v) SkipList. SkipList_init ml pr = Inr s \<and> max_level s = ml \<and> p s = pr \<and>
     (ml < 0 \<longrightarrow> search s k = Some (Inl IndexError) \<and>
        insert_item k v s g = Some (Inl IndexError) \<and> delete k s = Some (Inl IndexError))"
proof -
  let ?s = "\<lparr>max_level = ml, p = pr, header = replicate (nat (ml + 1)) None, level = 0, store = []\<rparr> :: ('k, 'v) SkipList"
  have "advance ?s k 0 Header = Some (Inl IndexError)" if "ml < 0"
    using that by (subst advance.simps) (simp add: get_forward_def)
  then have "ml < 0 \<longrightarrow> search ?s k = Some (Inl IndexError) \<and>
        insert_item k v ?s g = Some (Inl IndexError) \<and> delete k ?s = Some (Inl IndexError)"
    by (simp add: search_def insert_item_def delete_def find_update_def and_then_def)
  then show ?thesis
    by (simp add: SkipList_init_def)
qed

theorem init_accepts_any_configuration_witness:
  "(- 1 :: int) < 0 \<and>
   (\<exists>s :: (nat, nat) SkipList. SkipList_init (- 1) 2 = Inr s \<and> max_level s = - 1 \<and> p s = 2 \<and>
      search s 7 = Some (Inl IndexError) \<and>
      insert_item 7 (Some 70) s (fixed_rng 0) = Some (Inl IndexError) \<and>
      delete 7 s = Some (Inl IndexError))"
  using init_accepts_any_configuration [of "- 1" 2 7 "Some 70" "fixed_rng 0"] by simp

text \<open>
  C3, as the specification has it, fails: a probability of 2 and a maximum level of \<open>-1\<close> are
  accepted, and the container is built.
\<close>

theorem init_rejects_counterexample:
  "SkipList_init (- 1) 2 =
     Inr (\<lparr>max_level = - 1, p = 2, header = [], level = 0, store = []\<rparr> :: (nat, nat) SkipList)"
  by (simp add: SkipList_init_def)

text \<open>
  C4 fails on the code: a key inserted with the value \<open>None\<close> is in the list, and the
  membership test answers \<open>False\<close>, because it compares the result of \<open>search\<close> with
  \<open>None\<close>.
\<close>

theorem contains_misses_none_value:
  "run_contains 16 (1 / 2) [Insert (1::nat) (None :: nat option)] (fixed_rng 0) 1 = Some (Inr False)"
  by code_simp

text \<open>
  C1, as the code has it. After any sequence of inserts and deletes on a container built
  with \<open>max_level \<ge> 0\<close>, a key whose most recent insert stored \<open>v\<close> and that was not deleted
  since is found, and \<open>search\<close> returns \<open>v\<close>. The result differs from the not-found marker
  \<open>None\<close> whenever \<open>v\<close> itself is not \<open>None\<close>.
\<close>

theorem search_returns_stored_value:
  assumes "0 \<le> ml" "stored ops Map.empty k = Some v"
  shows "run_search ml pr ops g k = Some (Inr v) \<and>
         (v \<noteq> None \<longrightarrow> run_search ml pr ops g k \<noteq> Some (Inr None))"
proof -
  obtain s es where s: "run ml pr ops g = Some (Inr s)" "wf s es"
    "map_of (items s es) = stored ops Map.empty"
    using run_ok [OF assms(1), of pr ops g] by blast
  have "map_of (items s es) k = Some v"
    using assms(2) by (simp only: s(3))
  then have "search s k = Some (Inr v)"
    using search_ok [OF s(2), of k] by simp
  then show ?thesis
    using s(1) by (simp add: run_search_def and_then_def)
qed

theorem search_returns_stored_value_witness:
  "(0::int) \<le> 16 \<and>
   stored [Insert (3::nat) (Some (30::nat)), Delete 3, Insert 3 (Some 31), Insert 5 (Some 50)] Map.empty 3 = Some (Some 31) \<and>
   run_search 16 (1 / 2) [Insert (3::nat) (Some (30::nat)), Delete 3, Insert 3 (Some 31), Insert 5 (Some 50)] (fixed_rng 0) 3
     = Some (Inr (Some 31))"
proof -
  have h: "stored [Insert (3::nat) (Some (30::nat)), Delete 3, Insert 3 (Some 31), Insert 5 (Some 50)] Map.empty 3 = Some (Some 31)"
    by simp
  have z: "(0::int) \<le> 16" by simp
  from search_returns_stored_value [OF z h, of "1 / 2" "fixed_rng 0"] z h show ?thesis by simp
qed

text \<open>
  C1, as the specification has it, fails: the value \<open>None\<close> can be stored, and then
  \<open>search\<close> returns the not-found marker for a key that is in the list.
\<close>

theorem search_not_found_marker_counterexample:
  "stored [Insert (1::nat) (None :: nat option)] Map.empty 1 = Some None \<and>
   run_search 16 (1 / 2) [Insert (1::nat) (None :: nat option)] (fixed_rng 0) 1 = Some (Inr None)"
  by code_simp

text \<open>
  C2. After any sequence of inserts and deletes on a container built with
  \<open>max_level \<ge> 0\<close>, the keys of \<open>get_all_items\<close> increase strictly, and so do the keys along
  the chain of every level up to \<open>max_level\<close>.
\<close>

theorem keys_strictly_increasing:
  assumes "0 \<le> ml"
  shows "\<exists>s. run ml pr ops g = Some (Inr s) \<and>
           (\<exists>its. get_all_items s = Some (Inr its) \<and> sorted_wrt (<) (map fst its)) \<and>
           (\<forall>i. int i \<le> ml \<longrightarrow> (\<exists>ks. level_keys s i = Some (Inr ks) \<and> sorted_wrt (<) ks))"
proof -
  obtain s es where s: "run ml pr ops g = Some (Inr s)" "wf s es" "max_level s = ml"
    using run_ok [OF assms, of pr ops g] by blast
  have srt: "sorted_wrt (<) (map (keyof s) es)"
    using s(2) by (simp add: wf_def)
  have "map fst (items s es) = map (keyof s) es"
    by (simp add: items_def comp_def)
  with srt have "get_all_items s = Some (Inr (items s es)) \<and> sorted_wrt (<) (map fst (items s es))"
    using get_all_items_ok [OF s(2)] by simp
  moreover have "\<exists>ks. level_keys s i = Some (Inr ks) \<and> sorted_wrt (<) ks" if "int i \<le> ml" for i
  proof -
    have "i < length (header s)"
      using that s(3) wf_header_len [OF s(2), of i] by simp
    then have "level_keys s i = Some (Inr (map (keyof s) (lev s i es)))"
      using s(2) by (intro level_keys_ok)
    moreover have "sorted_wrt (<) (map (keyof s) (lev s i es))"
      unfolding lev_def using srt by (simp add: sorted_wrt_map sorted_wrt_filter)
    ultimately show ?thesis by blast
  qed
  ultimately show ?thesis using s(1) by blast
qed

theorem keys_strictly_increasing_witness:
  "(0::int) \<le> 3 \<and>
   (\<exists>s its ks. run 3 (1 / 2) [Insert (5::nat) (Some (50::nat)), Insert 2 (Some 20), Delete 5, Insert 8 None] (fixed_rng (1 / 4)) = Some (Inr s) \<and>
      get_all_items s = Some (Inr its) \<and> sorted_wrt (<) (map fst its) \<and>
      int 2 \<le> 3 \<and> level_keys s 2 = Some (Inr ks) \<and> sorted_wrt (<) ks)"
proof -
  have z: "(0::int) \<le> 3" by simp
  from keys_strictly_increasing [OF z, of "1 / 2" "[Insert (5::nat) (Some (50::nat)), Insert 2 (Some 20), Delete 5, Insert 8 None]" "fixed_rng (1 / 4)"]
  obtain s where s: "run 3 (1 / 2) [Insert (5::nat) (Some (50::nat)), Insert 2 (Some 20), Delete 5, Insert 8 None] (fixed_rng (1 / 4)) = Some (Inr s)"
    "\<exists>its. get_all_items s = Some (Inr its) \<and> sorted_wrt (<) (map fst its)"
    "\<forall>i. int i \<le> 3 \<longrightarrow> (\<exists>ks. level_keys s i = Some (Inr ks) \<and> sorted_wrt (<) ks)"
    by blast
  have "int 2 \<le> 3" by simp
  with s(3) have "\<exists>ks. level_keys s 2 = Some (Inr ks) \<and> sorted_wrt (<) ks" by blast
  with s(1,2) z show ?thesis by auto
qed

text \<open>
  C8. After any sequence of inserts and deletes on a container built with
  \<open>max_level \<ge> 0\<close>, the keys on a level \<open>i \<ge> 1\<close> (up to \<open>max_level\<close>) are among the keys on
  level \<open>i - 1\<close>.
\<close>

theorem levels_nested:
  assumes "0 \<le> ml"
  shows "\<exists>s. run ml pr ops g = Some (Inr s) \<and>
           (\<forall>i. 1 \<le> i \<and> int i \<le> ml \<longrightarrow>
              (\<exists>hi lo. level_keys s i = Some (Inr hi) \<and> level_keys s (i - 1) = Some (Inr lo) \<and>
                 set hi \<subseteq> set lo))"
proof -
  obtain s es where s: "run ml pr ops g = Some (Inr s)" "wf s es" "max_level s = ml"
    using run_ok [OF assms, of pr ops g] by blast
  have "\<exists>hi lo. level_keys s i = Some (Inr hi) \<and> level_keys s (i - 1) = Some (Inr lo) \<and> set hi \<subseteq> set lo"
    if "1 \<le> i \<and> int i \<le> ml" for i
  proof -
    have "i < length (header s)" "i - 1 < length (header s)"
      using that s(3) wf_header_len [OF s(2), of i] wf_header_len [OF s(2), of "i - 1"] by simp_all
    then have "level_keys s i = Some (Inr (map (keyof s) (lev s i es)))"
      "level_keys s (i - 1) = Some (Inr (map (keyof s) (lev s (i - 1) es)))"
      using s(2) by (simp_all add: level_keys_ok)
    moreover have "set (map (keyof s) (lev s i es)) \<subseteq> set (map (keyof s) (lev s (i - 1) es))"
      by (auto simp: set_lev)
    ultimately show ?thesis by blast
  qed
  with s(1) show ?thesis by blast
qed

theorem levels_nested_witness:
  "(0::int) \<le> 3 \<and> (1::nat) \<le> 2 \<and> int 2 \<le> 3 \<and>
   (\<exists>s hi lo. run 3 (1 / 2) [Insert (5::nat) (Some (50::nat)), Insert 2 (Some 20), Delete 5, Insert 8 None] (fixed_rng (1 / 4)) = Some (Inr s) \<and>
      level_keys s 2 = Some (Inr hi) \<and> level_keys s (2 - 1) = Some (Inr lo) \<and> set hi \<subseteq> set lo)"
proof -
  have z: "(0::int) \<le> 3" by simp
  from levels_nested [OF z, of "1 / 2" "[Insert (5::nat) (Some (50::nat)), Insert 2 (Some 20), Delete 5, Insert 8 None]" "fixed_rng (1 / 4)"]
  obtain s where s: "run 3 (1 / 2) [Insert (5::nat) (Some (50::nat)), Insert 2 (Some 20), Delete 5, Insert 8 None] (fixed_rng (1 / 4)) = Some (Inr s)"
    "\<forall>i. 1 \<le> i \<and> int i \<le> 3 \<longrightarrow>
              (\<exists>hi lo. level_keys s i = Some (Inr hi) \<and> level_keys s (i - 1) = Some (Inr lo) \<and>
                 set hi \<subseteq> set lo)"
    by blast
  have "(1::nat) \<le> 2 \<and> int 2 \<le> 3" by simp
  with s(2) have "\<exists>hi lo. level_keys s 2 = Some (Inr hi) \<and> level_keys s (2 - 1) = Some (Inr lo) \<and> set hi \<subseteq> set lo"
    by blast
  with s(1) z show ?thesis by auto
qed

lemma wf_observations:
  assumes "wf s es" "wf s' es" "max_level s' = max_level s"
    "\<And>a. a \<in> set es \<Longrightarrow> keyof s' a = keyof s a \<and> valof s' a = valof s a \<and> height s' a = height s a"
  shows "get_all_items s' = get_all_items s" "len s' = len s" "level s' = level s"
    "display_level s' i = display_level s i" "level_keys s' i = level_keys s i"
proof -
  have hl: "length (header s') = length (header s)"
    using assms(1,2,3) by (simp add: wf_def)
  have it: "items s' xs = items s xs" if "set xs \<subseteq> set es" for xs
    using that assms(4) by (intro items_cong) auto
  have lv: "lev s' i es = lev s i es"
    unfolding lev_def using assms(4) by (intro filter_cong) auto
  show "get_all_items s' = get_all_items s"
    using get_all_items_ok [OF assms(1)] get_all_items_ok [OF assms(2)] it [of es] by simp
  show "len s' = len s"
    using len_ok [OF assms(1)] len_ok [OF assms(2)] by simp
  show "level s' = level s"
    using assms(1,2,4) by (intro wf_level_unique) auto
  show d: "display_level s' i = display_level s i"
  proof (cases "i < length (header s)")
    case True
    have "set (lev s i es) \<subseteq> set es" by (auto simp: set_lev)
    then show ?thesis
      using display_level_ok [OF assms(1) True] display_level_ok [OF assms(2), of i] True hl lv it
      by simp
  next
    case False
    then show ?thesis
      using display_level_out [of i s] display_level_out [of i s'] hl by simp
  qed
  show "level_keys s' i = level_keys s i"
    by (simp add: level_keys_def d)
qed

text \<open>
  C7. After any sequence of inserts and deletes on a container built with
  \<open>max_level \<ge> 0\<close>, deleting a key that is not in the list returns \<open>False\<close> and returns the
  container as it was: the same state, hence the same size, items, level and chains.
\<close>

theorem delete_absent_key_unchanged:
  assumes "0 \<le> ml" "stored ops Map.empty k = None"
  shows "\<exists>s its. run ml pr ops g = Some (Inr s) \<and> get_all_items s = Some (Inr its) \<and>
           k \<notin> fst ` set its \<and> delete k s = Some (Inr (False, s))"
proof -
  obtain s es where s: "run ml pr ops g = Some (Inr s)" "wf s es"
    "map_of (items s es) = stored ops Map.empty"
    using run_ok [OF assms(1), of pr ops g] by blast
  have ab: "k \<notin> keyof s ` set es"
    using stored_present [OF s(2,3), of k] assms(2) by simp
  then have "k \<notin> fst ` set (items s es)"
    by (simp add: keys_items)
  with s(1) get_all_items_ok [OF s(2)] delete_absent [OF s(2) ab] show ?thesis by blast
qed

theorem delete_absent_key_unchanged_witness:
  "(0::int) \<le> 4 \<and> stored [Insert (5::nat) (Some (50::nat)), Insert 2 None] Map.empty 7 = None \<and>
   (\<exists>s its. run 4 (1 / 2) [Insert (5::nat) (Some (50::nat)), Insert 2 None] (fixed_rng (1 / 4)) = Some (Inr s) \<and>
      get_all_items s = Some (Inr its) \<and> 7 \<notin> fst ` set its \<and> delete 7 s = Some (Inr (False, s)))"
proof -
  have z: "(0::int) \<le> 4" by simp
  have h: "stored [Insert (5::nat) (Some (50::nat)), Insert 2 None] Map.empty 7 = None" by simp
  from delete_absent_key_unchanged [OF z h, of "1 / 2" "fixed_rng (1 / 4)"] z h show ?thesis by blast
qed

text \<open>
  C5. After any sequence of inserts and deletes on a container built with
  \<open>max_level \<ge> 0\<close>, deleting a key that is in the list returns \<open>True\<close>; afterwards \<open>search\<close>
  does not find the key, the size is one less, and the level has gone down to a level
  where the header has a link (or to 0), so that the header has no link above the new level.
\<close>

theorem delete_present_key:
  assumes "0 \<le> ml" "stored ops Map.empty k \<noteq> None"
  shows "\<exists>s s' its. run ml pr ops g = Some (Inr s) \<and> get_all_items s = Some (Inr its) \<and>
           k \<in> fst ` set its \<and> len s = Some (Inr (length its)) \<and>
           delete k s = Some (Inr (True, s')) \<and> search s' k = Some (Inr None) \<and>
           len s' = Some (Inr (length its - 1)) \<and> 0 < length its \<and>
           level s' \<le> level s \<and> (level s' = 0 \<or> (\<exists>a. header s' ! level s' = Some a)) \<and>
           (\<forall>j. level s' < j \<and> j < length (header s') \<longrightarrow> header s' ! j = None)"
proof -
  obtain s es where s: "run ml pr ops g = Some (Inr s)" "wf s es"
    "map_of (items s es) = stored ops Map.empty"
    using run_ok [OF assms(1), of pr ops g] by blast
  have pr: "k \<in> keyof s ` set es"
    using stored_present [OF s(2,3), of k] assms(2) by simp
  then obtain c where c: "c \<in> set es" "keyof s c = k" by blast
  let ?es = "filter (\<lambda>a. keyof s a \<noteq> k) es"
  from delete_present_items [OF s(2) pr] obtain s' where s': "delete k s = Some (Inr (True, s'))"
    "wf s' ?es" "items s' ?es = filter (\<lambda>(k', v'). k' \<noteq> k) (items s es)" "level s' \<le> level s"
    by blast
  have "map_of (items s' ?es) k = None"
    unfolding s'(3) by (simp add: map_of_filter_key)
  then have srch: "search s' k = Some (Inr None)"
    using search_ok [OF s'(2), of k] by simp
  have "length ?es = length es - 1"
    using length_filter_other_keys [OF wf_keys_inj [OF s(2)] wf_distinct [OF s(2)] c(1)] c(2)
    by simp
  then have ln: "len s' = Some (Inr (length (items s es) - 1))" "len s = Some (Inr (length (items s es)))"
    using len_ok [OF s'(2)] len_ok [OF s(2)] by (simp_all add: items_def)
  have pos: "0 < length (items s es)"
    using c(1) by (auto simp: items_def)
  have top: "level s' = 0 \<or> (\<exists>a. header s' ! level s' = Some a)"
    using wf_header_top [OF s'(2)] by auto
  have above: "\<forall>j. level s' < j \<and> j < length (header s') \<longrightarrow> header s' ! j = None"
    using wf_header_above [OF s'(2)] by blast
  have "k \<in> fst ` set (items s es)"
    using pr by (simp add: keys_items)
  with s(1) get_all_items_ok [OF s(2)] s'(1,4) srch ln pos top above show ?thesis
    by blast
qed

theorem delete_present_key_witness:
  "(0::int) \<le> 4 \<and> stored [Insert (5::nat) (Some (50::nat)), Insert 2 None] Map.empty 5 \<noteq> None \<and>
   (\<exists>s s' its. run 4 (1 / 2) [Insert (5::nat) (Some (50::nat)), Insert 2 None] (fixed_rng (1 / 4)) = Some (Inr s) \<and>
      get_all_items s = Some (Inr its) \<and> 5 \<in> fst ` set its \<and> len s = Some (Inr (length its)) \<and>
      delete 5 s = Some (Inr (True, s')) \<and> search s' 5 = Some (Inr None) \<and>
      len s' = Some (Inr (length its - 1)) \<and> 0 < length its \<and> level s' \<le> level s)"
proof -
  have z: "(0::int) \<le> 4" by simp
  have h: "stored [Insert (5::nat) (Some (50::nat)), Insert 2 None] Map.empty 5 \<noteq> None" by simp
  from delete_present_key [OF z h, of "1 / 2" "fixed_rng (1 / 4)"] z h show ?thesis by blast
qed

text \<open>
  C6. After any sequence of inserts and deletes on a container built with
  \<open>max_level \<ge> 0\<close>, inserting a key that is in the list replaces its value and nothing else:
  the source of draws comes back as it went in, the size, the level, the header, the keys
  and the links of every node are the same, and so are the keys on every level.
\<close>

theorem insert_present_key_replaces:
  assumes "0 \<le> ml" "stored ops Map.empty k \<noteq> None"
  shows "\<exists>s s' its. run ml pr ops g = Some (Inr s) \<and> get_all_items s = Some (Inr its) \<and>
           k \<in> fst ` set its \<and> insert_item k v s g2 = Some (Inr (s', g2)) \<and>
           get_all_items s' = Some (Inr (map (\<lambda>(k', v'). if k' = k then (k', v) else (k', v')) its)) \<and>
           len s' = len s \<and> level s' = level s \<and> header s' = header s \<and>
           max_level s' = max_level s \<and> p s' = p s \<and>
           map forward (store s') = map forward (store s) \<and> map key (store s') = map key (store s) \<and>
           (\<forall>i. level_keys s' i = level_keys s i)"
proof -
  obtain s es where s: "run ml pr ops g = Some (Inr s)" "wf s es"
    "map_of (items s es) = stored ops Map.empty"
    using run_ok [OF assms(1), of pr ops g] by blast
  have pr: "k \<in> keyof s ` set es"
    using stored_present [OF s(2,3), of k] assms(2) by simp
  from insert_existing_items [OF s(2) pr, of v g2] obtain s' where s':
    "insert_item k v s g2 = Some (Inr (s', g2))" "wf s' es"
    "items s' es = map (\<lambda>(k', v'). if k' = k then (k', v) else (k', v')) (items s es)"
    "\<forall>a. height s' a = height s a" "header s' = header s" "level s' = level s"
    "map forward (store s') = map forward (store s)" "map key (store s') = map key (store s)"
    "max_level s' = max_level s" "p s' = p s"
    by blast
  have ky: "keyof s' a = keyof s a" if "a \<in> set es" for a
  proof -
    have "a < length (store s)" using that s(2) by (auto simp: wf_def)
    moreover have "length (store s') = length (store s)"
      using arg_cong [OF s'(8), of length] by simp
    ultimately have "map key (store s') ! a = key (store s' ! a)" "map key (store s) ! a = key (store s ! a)"
      by simp_all
    then show ?thesis using s'(8) by (simp add: keyof_def)
  qed
  have lk: "level_keys s' i = level_keys s i" for i
  proof (cases "i < length (header s)")
    case True
    have "lev s' i es = lev s i es"
      using s'(4) by (simp add: lev_def)
    moreover have "map (keyof s') (lev s i es) = map (keyof s) (lev s i es)"
      using ky by (auto simp: set_lev)
    ultimately show ?thesis
      using level_keys_ok [OF s(2) True] level_keys_ok [OF s'(2), of i] True s'(5) by simp
  next
    case False
    then show ?thesis
      using display_level_out [of i s] display_level_out [of i s'] s'(5)
      by (simp add: level_keys_def)
  qed
  have "len s' = len s"
    using len_ok [OF s(2)] len_ok [OF s'(2)] by simp
  moreover have "k \<in> fst ` set (items s es)"
    using pr by (simp add: keys_items)
  moreover have "get_all_items s' = Some (Inr (map (\<lambda>(k', v'). if k' = k then (k', v) else (k', v')) (items s es)))"
    using get_all_items_ok [OF s'(2)] s'(3) by simp
  ultimately show ?thesis
    using s(1) get_all_items_ok [OF s(2)] s'(1,5,6,7,8,9,10) lk by blast
qed

theorem insert_present_key_replaces_witness:
  "(0::int) \<le> 4 \<and> stored [Insert (5::nat) (Some (50::nat)), Insert 2 None] Map.empty 2 \<noteq> None \<and>
   (\<exists>s s' its. run 4 (1 / 2) [Insert (5::nat) (Some (50::nat)), Insert 2 None] (fixed_rng (1 / 4)) = Some (Inr s) \<and>
      get_all_items s = Some (Inr its) \<and> 2 \<in> fst ` set its \<and>
      insert_item 2 (Some 21) s (fixed_rng (3 / 4)) = Some (Inr (s', fixed_rng (3 / 4))) \<and>
      get_all_items s' = Some (Inr (map (\<lambda>(k', v'). if k' = 2 then (k', Some 21) else (k', v')) its)) \<and>
      len s' = len s \<and> level s' = level s \<and> header s' = header s \<and>
      map forward (store s') = map forward (store s) \<and> map key (store s') = map key (store s))"
proof -
  have z: "(0::int) \<le> 4" by simp
  have h: "stored [Insert (5::nat) (Some (50::nat)), Insert 2 None] Map.empty 2 \<noteq> None" by simp
  from insert_present_key_replaces [OF z h, of "1 / 2" "fixed_rng (1 / 4)" "Some 21" "fixed_rng (3 / 4)"] z h
  show ?thesis by blast
qed

text \<open>
  C10. After any sequence of inserts and deletes on a container built with
  \<open>max_level \<ge> 0\<close>, inserting a key that is not in the list and deleting it at once gives
  back what was there: the same items, size, level, and the same chain on every level.
\<close>

theorem insert_then_delete_restores:
  assumes "0 \<le> ml" "stored ops Map.empty k = None"
  shows "\<exists>s s1 g1 s2. run ml pr ops g = Some (Inr s) \<and>
           insert_item k v s g2 = Some (Inr (s1, g1)) \<and> delete k s1 = Some (Inr (True, s2)) \<and>
           get_all_items s2 = get_all_items s \<and> len s2 = len s \<and> level s2 = level s \<and>
           (\<forall>i. display_level s2 i = display_level s i) \<and> (\<forall>i. level_keys s2 i = level_keys s i)"
proof -
  obtain s es where s: "run ml pr ops g = Some (Inr s)" "wf s es"
    "map_of (items s es) = stored ops Map.empty"
    using run_ok [OF assms(1), of pr ops g] by blast
  have ab: "k \<notin> keyof s ` set es"
    using stored_present [OF s(2,3), of k] assms(2) by simp
  let ?new = "length (store s)"
  let ?es = "below s k es @ ?new # rest s k es"
  from insert_absent_items [OF s(2) ab, of v g2] obtain s1 where s1:
    "insert_item k v s g2 = Some (Inr (s1, snd (random_level s g2)))" "wf s1 ?es"
    "keyof s1 ?new = k"
    "\<forall>a\<in>set es. keyof s1 a = keyof s a \<and> valof s1 a = valof s a \<and> height s1 a = height s a"
    "max_level s1 = max_level s"
    by blast
  have "k \<in> keyof s1 ` set ?es"
    using s1(3) by force
  from delete_present_items [OF s1(2) this] obtain s2 where s2:
    "delete k s1 = Some (Inr (True, s2))" "wf s2 (filter (\<lambda>a. keyof s1 a \<noteq> k) ?es)"
    "\<forall>a. keyof s2 a = keyof s1 a \<and> valof s2 a = valof s1 a \<and> height s2 a = height s1 a"
    "max_level s2 = max_level s1"
    by blast
  have keep: "keyof s1 a \<noteq> k" if "a \<in> set es" for a
    using that s1(4) ab by auto
  have "filter (\<lambda>a. keyof s1 a \<noteq> k) (below s k es) = below s k es"
    "filter (\<lambda>a. keyof s1 a \<noteq> k) (rest s k es) = rest s k es"
    using keep below_subset [of s k es] rest_subset [of s k es]
    by (auto simp: filter_id_conv)
  then have "filter (\<lambda>a. keyof s1 a \<noteq> k) ?es = below s k es @ rest s k es"
    using s1(3) by simp
  then have "filter (\<lambda>a. keyof s1 a \<noteq> k) ?es = es"
    by (simp add: below_rest)
  with s2(2) have wf2: "wf s2 es" by simp
  have same: "keyof s2 a = keyof s a \<and> valof s2 a = valof s a \<and> height s2 a = height s a"
    if "a \<in> set es" for a
    using that s1(4) s2(3) by simp
  have ml2: "max_level s2 = max_level s"
    using s1(5) s2(4) by simp
  note obs = wf_observations [OF s(2) wf2 ml2 same]
  show ?thesis
    using s(1) s1(1) s2(1) obs by blast
qed

theorem insert_then_delete_restores_witness:
  "(0::int) \<le> 4 \<and> stored [Insert (5::nat) (Some (50::nat)), Insert 2 None] Map.empty 3 = None \<and>
   (\<exists>s s1 g1 s2. run 4 (1 / 2) [Insert (5::nat) (Some (50::nat)), Insert 2 None] (fixed_rng (1 / 4)) = Some (Inr s) \<and>
      insert_item 3 (Some 30) s (fixed_rng (1 / 4)) = Some (Inr (s1, g1)) \<and>
      delete 3 s1 = Some (Inr (True, s2)) \<and>
      get_all_items s2 = get_all_items s \<and> len s2 = len s \<and> level s2 = level s \<and>
      display_level s2 4 = display_level s 4 \<and> level_keys s2 0 = level_keys s 0)"
proof -
  have z: "(0::int) \<le> 4" by simp
  have h: "stored [Insert (5::nat) (Some (50::nat)), Insert 2 None] Map.empty 3 = None" by simp
  from insert_then_delete_restores [OF z h, of "1 / 2" "fixed_rng (1 / 4)" "Some 30" "fixed_rng (1 / 4)"] z h
  show ?thesis by blast
qed

end
